theory Spec2Isabelle
  imports Complex_Main
begin

section \<open>The cleanvid folder-watcher service (\<open>src/cleanvid/service.py\<close>)\<close>

text \<open>
  The service polls a list of watch directories, pairs every video with the subtitle of
  the same stem, waits until the video's size is stable, asks a small JSON database of
  fingerprints whether the pair is new or changed, runs the external \<open>cleanvid\<close> tool on
  it and records the fingerprints when the tool succeeds.

  The model is a shallow embedding. Python strings are \<open>string\<close>; the file system and the
  clock are a record of observations (\<open>world\<close>); everything the outside does (the external
  tool, other processes writing files while the service sleeps, moving files) is a
  parameter (\<open>env\<close>) that transforms the world; the service's own effects are appended to a
  trace of events. Exceptions are values. Log output is not modelled.

  What the model takes for granted: paths are POSIX paths; the world changes only while
  the service sleeps, runs the tool or moves files, not between two observations of one
  scan; the store holds entries of the shape that \<open>main\<close> writes; \<open>os.replace\<close> is one
  step; the start of \<open>main\<close> before the poll loop (reading the environment, creating the
  directories) is left out, but for \<open>load_db\<close>.
\<close>

subsection \<open>Python strings\<close>

type_synonym path = string

text \<open>\<open>str.startswith\<close> and \<open>str.endswith\<close> for one candidate and for a tuple of them.\<close>

definition startswith :: "string \<Rightarrow> string \<Rightarrow> bool" where
  "startswith s p = (take (length p) s = p)"

definition endswith :: "string \<Rightarrow> string \<Rightarrow> bool" where
  "endswith s x = (length x \<le> length s \<and> drop (length s - length x) s = x)"

definition endswith_any :: "string \<Rightarrow> string list \<Rightarrow> bool" where
  "endswith_any s xs = list_ex (endswith s) xs"

text \<open>
  \<open>str.lower\<close> on the ASCII letters. Python lower-cases every cased Unicode character;
  names with cased characters outside ASCII are outside this model.
\<close>

definition lower_char :: "char \<Rightarrow> char" where
  "lower_char c =
     (case map_of (zip ''ABCDEFGHIJKLMNOPQRSTUVWXYZ'' ''abcdefghijklmnopqrstuvwxyz'') c of
        Some l \<Rightarrow> l
      | None \<Rightarrow> c)"

definition lower :: "string \<Rightarrow> string" where
  "lower s = map lower_char s"

text \<open>\<open>str.rfind\<close> of a single character: the index of its last occurrence, or \<open>-1\<close>.\<close>

definition rfind :: "string \<Rightarrow> char \<Rightarrow> int" where
  "rfind s c =
     (if c \<in> set s
      then int (length s) - 1 - int (length (takeWhile (\<lambda>x. x \<noteq> c) (rev s)))
      else - 1)"

text \<open>\<open>str.rstrip\<close> of a single character.\<close>

definition rstrip :: "string \<Rightarrow> char \<Rightarrow> string" where
  "rstrip s c = rev (dropWhile (\<lambda>x. x = c) (rev s))"

subsection \<open>\<open>os.path\<close> on POSIX\<close>

text \<open>
  The service runs on POSIX paths (its defaults are \<open>/data/in\<close>, \<open>/data/out\<close>), so
  \<open>os.path\<close> is \<open>posixpath\<close>. The functions below follow the library's code.
\<close>

definition join :: "path \<Rightarrow> path \<Rightarrow> path" where
  "join a b =
     (if startswith b ''/'' then b
      else if a = [] \<or> endswith a ''/'' then a @ b
      else a @ ''/'' @ b)"

definition basename :: "path \<Rightarrow> path" where
  "basename p = drop (nat (rfind p CHR ''/'' + 1)) p"

definition dirname :: "path \<Rightarrow> path" where
  "dirname p =
     (let head = take (nat (rfind p CHR ''/'' + 1)) p
      in if head \<noteq> [] \<and> head \<noteq> replicate (length head) CHR ''/''
         then rstrip head CHR ''/''
         else head)"

text \<open>
  The loop of \<open>genericpath._splitext\<close> that skips the leading dots of the file name:
  it answers whether a character other than a dot stands between \<open>filenameIndex\<close> and
  \<open>dotIndex\<close>.
\<close>

function splitext_scan :: "string \<Rightarrow> nat \<Rightarrow> nat \<Rightarrow> bool" where
  "splitext_scan p filenameIndex dotIndex =
     (if filenameIndex < dotIndex
      then (if take 1 (drop filenameIndex p) \<noteq> ''.'' then True
            else splitext_scan p (filenameIndex + 1) dotIndex)
      else False)"
  by pat_completeness auto
termination
  by (relation "measure (\<lambda>(p, filenameIndex, dotIndex). dotIndex - filenameIndex)") auto

declare splitext_scan.simps [simp del]

definition splitext :: "path \<Rightarrow> string \<times> string" where
  "splitext p =
     (let sepIndex = rfind p CHR ''/'';
          dotIndex = rfind p CHR ''.''
      in if dotIndex > sepIndex \<and> splitext_scan p (nat (sepIndex + 1)) (nat dotIndex)
         then (take (nat dotIndex) p, drop (nat dotIndex) p)
         else (p, []))"

subsection \<open>The world the service observes\<close>

datatype file_kind = Regular | Directory | Other

record stat_result =
  st_mode :: file_kind
  st_size :: int
  st_mtime :: real

text \<open>
  \<open>os_stat\<close> is \<open>os.stat\<close> (\<open>None\<close>: it raises \<open>OSError\<close>), \<open>os_listdir\<close> is \<open>os.listdir\<close>
  (\<open>None\<close>: it raises \<open>OSError\<close>), \<open>file_text\<close> is the content of a text file
  (\<open>None\<close>: it cannot be opened), \<open>clock\<close> is \<open>time.time()\<close>.
\<close>

record world =
  os_stat :: "path \<Rightarrow> stat_result option"
  os_listdir :: "path \<Rightarrow> string list option"
  file_text :: "path \<Rightarrow> string option"
  clock :: real

definition isdir :: "world \<Rightarrow> path \<Rightarrow> bool" where
  "isdir w p = (case os_stat w p of None \<Rightarrow> False | Some st \<Rightarrow> st_mode st = Directory)"

definition isfile :: "world \<Rightarrow> path \<Rightarrow> bool" where
  "isfile w p = (case os_stat w p of None \<Rightarrow> False | Some st \<Rightarrow> st_mode st = Regular)"

definition getsize :: "world \<Rightarrow> path \<Rightarrow> int option" where
  "getsize w p = map_option st_size (os_stat w p)"

subsection \<open>Directory scanner: \<open>find_videos\<close>, \<open>find_subs\<close>\<close>

definition VIDEO_EXTS :: "string list" where
  "VIDEO_EXTS = [''.mp4'', ''.mkv'', ''.avi'', ''.mov'', ''.wmv'', ''.flv'', ''.m4v'']"

fun find_videos_loop :: "world \<Rightarrow> path \<Rightarrow> string list \<Rightarrow> path list" where
  "find_videos_loop w path [] = []"
| "find_videos_loop w path (entry # rest) =
     (if startswith entry ''.'' then find_videos_loop w path rest
      else let full = join path entry
           in if isfile w full \<and> endswith_any (lower entry) VIDEO_EXTS
              then full # find_videos_loop w path rest
              else find_videos_loop w path rest)"

text \<open>The generator's values in order; \<open>None\<close> when \<open>os.listdir\<close> raises.\<close>

definition find_videos :: "world \<Rightarrow> path \<Rightarrow> path list option" where
  "find_videos w path =
     (if \<not> isdir w path then Some []
      else case os_listdir w path of
             None \<Rightarrow> None
           | Some entries \<Rightarrow> Some (find_videos_loop w path entries))"

fun find_subs_loop :: "world \<Rightarrow> path \<Rightarrow> string list \<Rightarrow> path list" where
  "find_subs_loop w path [] = []"
| "find_subs_loop w path (entry # rest) =
     (if startswith entry ''.'' then find_subs_loop w path rest
      else let full = join path entry
           in if isfile w full \<and> endswith (lower entry) ''.srt''
              then full # find_subs_loop w path rest
              else find_subs_loop w path rest)"

definition find_subs :: "world \<Rightarrow> path \<Rightarrow> path list option" where
  "find_subs w path =
     (if \<not> isdir w path then Some []
      else case os_listdir w path of
             None \<Rightarrow> None
           | Some entries \<Rightarrow> Some (find_subs_loop w path entries))"

subsection \<open>The fingerprint store\<close>

text \<open>
  A fingerprint is the dictionary \<open>{'size': ..., 'mtime': ...}\<close> that \<open>stat_info\<close> builds, a
  store entry the dictionary \<open>{'video': ..., 'subs': ..., 'processed_at': ...}\<close> that \<open>main\<close>
  stores. \<open>None\<close> in \<open>video\<close> or \<open>subs\<close> is Python's \<open>None\<close>, which is also what
  \<open>entry.get\<close> answers for a missing key. An entry always has its three keys, so it is
  never empty and Python's \<open>not entry\<close> holds only when \<open>db.get(key)\<close> is \<open>None\<close>.
\<close>

record fingerprint =
  fsize :: int
  mtime :: int

record entry =
  video :: "fingerprint option"
  subs :: "fingerprint option"
  processed_at :: int

type_synonym store = "path \<Rightarrow> entry option"

text \<open>Python's \<open>int(x)\<close> of a float: truncation towards zero.\<close>

definition py_int :: "real \<Rightarrow> int" where
  "py_int x = (if 0 \<le> x then \<lfloor>x\<rfloor> else \<lceil>x\<rceil>)"

definition stat_info :: "world \<Rightarrow> path \<Rightarrow> fingerprint option" where
  "stat_info w path =
     (case os_stat w path of
        None \<Rightarrow> None
      | Some st \<Rightarrow> Some \<lparr>fsize = st_size st, mtime = py_int (st_mtime st)\<rparr>)"

text \<open>Truth value of an optional path (\<open>if srt\<close>): neither \<open>None\<close> nor the empty string.\<close>

definition truthy :: "path option \<Rightarrow> bool" where
  "truthy srt = (case srt of None \<Rightarrow> False | Some p \<Rightarrow> p \<noteq> [])"

text \<open>The change detector, lines 176 to 185 of \<open>main\<close>: the value of \<open>needs\<close>.\<close>

definition needs_processing ::
  "store \<Rightarrow> path \<Rightarrow> fingerprint option \<Rightarrow> fingerprint option \<Rightarrow> bool" where
  "needs_processing db key vstat sstat =
     (case db key of
        None \<Rightarrow> True
      | Some entry \<Rightarrow>
          if video entry \<noteq> vstat then True
          else if subs entry \<noteq> sstat then True
          else False)"

subsection \<open>Merging the scans of the watch roots\<close>

text \<open>
  A Python dictionary that is iterated keeps its keys in the order of their first
  insertion; assigning to a present key replaces the value in place.
\<close>

fun dict_set :: "'k \<Rightarrow> 'v \<Rightarrow> ('k \<times> 'v) list \<Rightarrow> ('k \<times> 'v) list" where
  "dict_set k v [] = [(k, v)]"
| "dict_set k v ((k', v') # rest) =
     (if k' = k then (k, v) # rest else (k', v') # dict_set k v rest)"

text \<open>\<open>os.path.splitext(os.path.basename(v))[0]\<close>, the key of both mappings.\<close>

definition stem :: "path \<Rightarrow> string" where
  "stem v = fst (splitext (basename v))"

fun add_all :: "path list \<Rightarrow> (string \<times> path) list \<Rightarrow> (string \<times> path) list" where
  "add_all [] m = m"
| "add_all (v # vs) m = add_all vs (dict_set (stem v) v m)"

text \<open>
  Lines 152 to 158: the loop over the watch roots. \<open>None\<close> when a listing raises; the
  two mappings are local to the cycle and lost with it.
\<close>

fun scan_roots ::
  "world \<Rightarrow> path list \<Rightarrow> (string \<times> path) list \<Rightarrow> (string \<times> path) list
     \<Rightarrow> ((string \<times> path) list \<times> (string \<times> path) list) option" where
  "scan_roots w [] video_map subs_map = Some (video_map, subs_map)"
| "scan_roots w (d # ds) video_map subs_map =
     (case find_videos w d of
        None \<Rightarrow> None
      | Some vs \<Rightarrow>
          (case find_subs w d of
             None \<Rightarrow> None
           | Some ss \<Rightarrow> scan_roots w ds (add_all vs video_map) (add_all ss subs_map)))"

subsection \<open>Configuration, environment, state\<close>

text \<open>
  A Python float, as \<open>float(...)\<close> of line 101 gives it for the poll interval: a number,
  an infinity or not a number. (\<open>-0.0\<close> is \<open>Finite 0\<close>.)
\<close>

datatype pyfloat = Finite real | PosInf | NegInf | NaN

record config =
  watch_dirs :: "path list"
  output_dir :: path
  processed_dir :: path
  poll_interval :: pyfloat
  preserve_input :: bool
  write_next_to_input :: bool
  swears_file :: path
  processed_db :: path

datatype exn = OSError | ValueError | OverflowError

text \<open>
  What \<open>subprocess.run\<close> meets: the tool ran and exited with a status, or the call raised
  before a status was there, as when the tool cannot be started (\<open>OSError\<close>). With
  \<open>check=True\<close> a status other than zero becomes \<open>CalledProcessError\<close>, the only
  exception that \<open>process\<close> catches.
\<close>

datatype run_outcome = Exited int | SpawnFailed

text \<open>
  The outside of the service. \<open>subprocess_run\<close> runs the command and changes the world;
  \<open>os_makedirs\<close> and \<open>shutil_move\<close> answer whether they succeeded (\<open>False\<close>: they raise);
  \<open>elapse d\<close> is what happens to the world while the service sleeps for \<open>d\<close> seconds;
  \<open>abspath\<close> is \<open>os.path.abspath\<close>; \<open>json_dumps\<close> and \<open>json_loads\<close> are the JSON codec
  (\<open>None\<close>: the text does not parse); \<open>save_fault\<close> is the index of the first
  file operation of a store write that raises, if any; \<open>timer_limit\<close> is the longest wait,
  in seconds, that the platform's timer takes in a given world (on Linux it depends on
  how long the machine has been up).
\<close>

record env =
  subprocess_run :: "string list \<Rightarrow> world \<Rightarrow> run_outcome \<times> world"
  os_makedirs :: "path \<Rightarrow> world \<Rightarrow> bool \<times> world"
  shutil_move :: "path \<Rightarrow> path \<Rightarrow> world \<Rightarrow> bool \<times> world"
  elapse :: "real \<Rightarrow> world \<Rightarrow> world"
  abspath :: "path \<Rightarrow> path"
  json_dumps :: "store \<Rightarrow> string"
  json_loads :: "string \<Rightarrow> store option"
  save_fault :: "world \<Rightarrow> nat option"
  timer_limit :: "world \<Rightarrow> real"

datatype event =
    Sleep real
  | Run "string list" run_outcome
  | MakeDirs path
  | Move path path
  | SaveDb

record state =
  wld :: world
  db :: store
  trace :: "event list"

text \<open>
  What \<open>time.sleep\<close> raises for a float, if anything. CPython first converts the
  duration to a signed 64-bit number of nanoseconds: not a number raises \<open>ValueError\<close>,
  an infinity or a number out of that range raises \<open>OverflowError\<close>. A negative duration
  then raises \<open>ValueError\<close>. At last the platform's timer may refuse a wait that is too
  long for it, which raises \<open>OSError\<close>; a wait of at most one second, as the stability
  gate asks for, is taken as never refused.
\<close>

definition sleep_error :: "env \<Rightarrow> pyfloat \<Rightarrow> world \<Rightarrow> exn option" where
  "sleep_error e x w =
     (case x of
        NaN \<Rightarrow> Some ValueError
      | PosInf \<Rightarrow> Some OverflowError
      | NegInf \<Rightarrow> Some OverflowError
      | Finite d \<Rightarrow>
          if d * 10 ^ 9 < - (2 ^ 63) \<or> 2 ^ 63 \<le> d * 10 ^ 9 then Some OverflowError
          else if d < 0 then Some ValueError
          else if 1 < d \<and> timer_limit e w < d then Some OSError
          else None)"

text \<open>The seconds of a float that \<open>time.sleep\<close> accepts.\<close>

definition seconds :: "pyfloat \<Rightarrow> real" where
  "seconds x = (case x of Finite d \<Rightarrow> d | PosInf \<Rightarrow> 0 | NegInf \<Rightarrow> 0 | NaN \<Rightarrow> 0)"

text \<open>\<open>time.sleep\<close>: it raises, or the world goes on for the duration.\<close>

definition time_sleep :: "env \<Rightarrow> pyfloat \<Rightarrow> state \<Rightarrow> exn + state" where
  "time_sleep e x s =
     (case sleep_error e x (wld s) of
        Some err \<Rightarrow> Inl err
      | None \<Rightarrow>
          Inr (s\<lparr>wld := elapse e (seconds x) (wld s), trace := trace s @ [Sleep (seconds x)]\<rparr>))"

subsection \<open>Persisting the store: \<open>load_db\<close>, \<open>save_db\<close>\<close>

text \<open>
  The file operations of \<open>save_db\<close>. \<open>OpenW\<close> creates or truncates, \<open>Write\<close> appends to
  the open file, \<open>Replace\<close> is \<open>os.replace\<close>, one atomic step. They change what \<open>os_stat\<close>
  and \<open>file_text\<close> answer for the paths they name; directory listings are left to \<open>elapse\<close>.
\<close>

datatype fs_op = OpenW path | Write path string | Replace path path

fun apply_op :: "fs_op \<Rightarrow> world \<Rightarrow> world" where
  "apply_op (OpenW p) w =
     w\<lparr>os_stat := (os_stat w)(p \<mapsto> \<lparr>st_mode = Regular, st_size = 0, st_mtime = clock w\<rparr>),
       file_text := (file_text w)(p \<mapsto> [])\<rparr>"
| "apply_op (Write p chunk) w =
     (let t = (case file_text w p of None \<Rightarrow> [] | Some old \<Rightarrow> old) @ chunk
      in w\<lparr>os_stat := (os_stat w)(p \<mapsto>
              \<lparr>st_mode = Regular, st_size = int (length t), st_mtime = clock w\<rparr>),
            file_text := (file_text w)(p \<mapsto> t)\<rparr>)"
| "apply_op (Replace src dst) w =
     w\<lparr>os_stat := (os_stat w)(dst := os_stat w src, src := None),
       file_text := (file_text w)(dst := file_text w src, src := None)\<rparr>"

fun run_ops :: "fs_op list \<Rightarrow> world \<Rightarrow> world" where
  "run_ops [] w = w"
| "run_ops (op # ops) w = run_ops ops (apply_op op w)"

text \<open>
  The operations of one \<open>save_db\<close>, in order: open the temporary file, write the JSON
  text (character by character, so that every prefix of the text is a state the file can
  be left in), replace the store file by the temporary file.
\<close>

definition save_db_ops :: "env \<Rightarrow> config \<Rightarrow> store \<Rightarrow> fs_op list" where
  "save_db_ops e cfg d =
     (let tmp = processed_db cfg @ ''.tmp''
      in [OpenW tmp] @ map (\<lambda>c. Write tmp [c]) (json_dumps e d)
         @ [Replace tmp (processed_db cfg)])"

text \<open>
  \<open>save_db\<close> catches every exception: when an operation raises, the operations before it
  have happened and the rest have not.
\<close>

definition save_db :: "env \<Rightarrow> config \<Rightarrow> store \<Rightarrow> state \<Rightarrow> state" where
  "save_db e cfg d s =
     (let ops = save_db_ops e cfg d;
          done = (case save_fault e (wld s) of None \<Rightarrow> length ops | Some i \<Rightarrow> min i (length ops))
      in s\<lparr>wld := run_ops (take done ops) (wld s), trace := trace s @ [SaveDb]\<rparr>)"

definition load_db :: "env \<Rightarrow> config \<Rightarrow> world \<Rightarrow> store" where
  "load_db e cfg w =
     (if isfile w (processed_db cfg)
      then (case file_text w (processed_db cfg) of
              None \<Rightarrow> Map.empty
            | Some text \<Rightarrow> (case json_loads e text of None \<Rightarrow> Map.empty | Some d \<Rightarrow> d))
      else Map.empty)"

subsection \<open>Processing invoker: \<open>process\<close>\<close>

text \<open>
  \<open>process\<close> is only called from \<open>main\<close>, with the configured directories and flags, so
  the model passes the configuration. Lines 62 to 67: the output file.
\<close>

definition out_file_of :: "config \<Rightarrow> path \<Rightarrow> path" where
  "out_file_of cfg video_path =
     (let base = fst (splitext (basename video_path));
          ext = snd (splitext video_path)
      in if write_next_to_input cfg
         then join (dirname video_path) (base @ ''_clean'' @ ext)
         else join (output_dir cfg) (base @ ''_clean'' @ ext))"

text \<open>Lines 69 to 71: the command.\<close>

definition build_cmd :: "config \<Rightarrow> world \<Rightarrow> path \<Rightarrow> path option \<Rightarrow> string list" where
  "build_cmd cfg w video_path srt_path =
     [''cleanvid'', ''-i'', video_path, ''-o'', out_file_of cfg video_path, ''-w'', swears_file cfg]
     @ (case srt_path of
          None \<Rightarrow> []
        | Some srt \<Rightarrow> if truthy srt_path \<and> isfile w srt then [''-s'', srt] else [])"

text \<open>
  Lines 83 to 87: the subtitle is moved when it is paired and still a file. A failed
  \<open>shutil.move\<close> is caught and logged, so the answer of the move is not used.
\<close>

definition move_subtitle :: "env \<Rightarrow> config \<Rightarrow> path option \<Rightarrow> state \<Rightarrow> state" where
  "move_subtitle e cfg srt_path s =
     (case srt_path of
        None \<Rightarrow> s
      | Some srt \<Rightarrow>
          if truthy srt_path \<and> isfile (wld s) srt
          then (let dst = join (processed_dir cfg) (basename srt);
                    (moved, w') = shutil_move e srt dst (wld s)
                in s\<lparr>wld := w', trace := trace s @ [Move srt dst]\<rparr>)
          else s)"

text \<open>
  Lines 77 to 87, the branch \<open>if not preserve_input\<close>: \<open>ensure_dir\<close>, whose \<open>OSError\<close>
  nothing in \<open>process\<close> catches, then the move of the video, then that of the subtitle.
\<close>

definition relocate :: "env \<Rightarrow> config \<Rightarrow> path \<Rightarrow> path option \<Rightarrow> state \<Rightarrow> (exn + bool) \<times> state" where
  "relocate e cfg video_path srt_path s =
     (let (made, w1) = os_makedirs e (processed_dir cfg) (wld s);
          s1 = s\<lparr>wld := w1, trace := trace s @ [MakeDirs (processed_dir cfg)]\<rparr>
      in if \<not> made then (Inl OSError, s1)
         else (let dst = join (processed_dir cfg) (basename video_path);
                   (moved, w2) = shutil_move e video_path dst (wld s1);
                   s2 = s1\<lparr>wld := w2, trace := trace s1 @ [Move video_path dst]\<rparr>
               in (Inr True, move_subtitle e cfg srt_path s2)))"

text \<open>
  Lines 69 to 91. \<open>subprocess.run\<close> with \<open>check=True\<close> raises \<open>CalledProcessError\<close> on a
  status other than zero, which \<open>process\<close> catches and answers \<open>False\<close> (lines 89 to 91);
  any other exception of the call leaves \<open>process\<close>.
\<close>

definition process :: "env \<Rightarrow> config \<Rightarrow> path \<Rightarrow> path option \<Rightarrow> state \<Rightarrow> (exn + bool) \<times> state" where
  "process e cfg video_path srt_path s =
     (let cmd = build_cmd cfg (wld s) video_path srt_path;
          (outcome, w1) = subprocess_run e cmd (wld s);
          s1 = s\<lparr>wld := w1, trace := trace s @ [Run cmd outcome]\<rparr>
      in case outcome of
           SpawnFailed \<Rightarrow> (Inl OSError, s1)
         | Exited status \<Rightarrow>
             if status \<noteq> 0 then (Inr False, s1)
             else if \<not> preserve_input cfg then relocate e cfg video_path srt_path s1
             else (Inr True, s1))"

subsection \<open>One candidate, one cycle, the poll loop\<close>

text \<open>
  Lines 192 and 193: the record is stored under the key, with the time of the clock after
  the tool has run, and the store is saved.
\<close>

definition commit :: "env \<Rightarrow> config \<Rightarrow> path \<Rightarrow> fingerprint option \<Rightarrow> fingerprint option \<Rightarrow> state \<Rightarrow> state" where
  "commit e cfg key vstat sstat s =
     (let d = (db s)(key \<mapsto> \<lparr>video = vstat, subs = sstat, processed_at = py_int (clock (wld s))\<rparr>)
      in save_db e cfg d (s\<lparr>db := d\<rparr>))"

text \<open>Lines 172 to 174: the key and the current fingerprints of the pair.\<close>

definition current_fingerprints ::
  "env \<Rightarrow> path \<Rightarrow> path option \<Rightarrow> world \<Rightarrow> path \<times> fingerprint option \<times> fingerprint option" where
  "current_fingerprints e vpath srt w =
     (abspath e vpath,
      stat_info w vpath,
      (case srt of
         None \<Rightarrow> None
       | Some p \<Rightarrow> if truthy srt then stat_info w p else None))"

text \<open>
  Lines 172 to 193: the fingerprints, the decision, the call of \<open>process\<close> and the update
  of the store when \<open>process\<close> answers \<open>True\<close>. The first component of the result is the
  exception that leaves the loop over the candidates, if any; \<open>continue\<close> is \<open>(None, _)\<close>.
\<close>

definition detect_and_process ::
  "env \<Rightarrow> config \<Rightarrow> path \<Rightarrow> path option \<Rightarrow> state \<Rightarrow> exn option \<times> state" where
  "detect_and_process e cfg vpath srt s =
     (case current_fingerprints e vpath srt (wld s) of
        (key, vstat, sstat) \<Rightarrow>
          if \<not> needs_processing (db s) key vstat sstat then (None, s)
          else (case process e cfg vpath srt s of
                  (Inl x, s') \<Rightarrow> (Some x, s')
                | (Inr ok, s') \<Rightarrow>
                    if ok then (None, commit e cfg key vstat sstat s') else (None, s')))"

text \<open>
  The body of the loop over \<open>video_map.items()\<close>, lines 161 to 193: the subtitle of the
  same stem, the stability gate of lines 163 to 170 (an \<open>OSError\<close> of \<open>os.path.getsize\<close> is
  caught and the candidate skipped), then the rest.
\<close>

definition candidate ::
  "env \<Rightarrow> config \<Rightarrow> (string \<times> path) list \<Rightarrow> string \<times> path \<Rightarrow> state \<Rightarrow> exn option \<times> state" where
  "candidate e cfg subs_map item s =
     (let base = fst item;
          vpath = snd item;
          srt = map_of subs_map base
      in case getsize (wld s) vpath of
           None \<Rightarrow> (None, s)
         | Some s1 \<Rightarrow>
             (case time_sleep e (Finite 1) s of
                Inl x \<Rightarrow> if x = OSError then (None, s) else (Some x, s)
              | Inr s' \<Rightarrow>
                  (case getsize (wld s') vpath of
                     None \<Rightarrow> (None, s')
                   | Some s2 \<Rightarrow>
                       if s1 \<noteq> s2 then (None, s')
                       else detect_and_process e cfg vpath srt s')))"

text \<open>The loop of line 160 over the items of \<open>video_map\<close>, in their order.\<close>

fun for_candidates ::
  "env \<Rightarrow> config \<Rightarrow> (string \<times> path) list \<Rightarrow> (string \<times> path) list \<Rightarrow> state
     \<Rightarrow> exn option \<times> state" where
  "for_candidates e cfg subs_map [] s = (None, s)"
| "for_candidates e cfg subs_map (item # items) s =
     (case candidate e cfg subs_map item s of
        (Some x, s') \<Rightarrow> (Some x, s')
      | (None, s') \<Rightarrow> for_candidates e cfg subs_map items s')"

text \<open>The body of the \<open>try\<close> of the poll loop, lines 152 to 193.\<close>

definition cycle :: "env \<Rightarrow> config \<Rightarrow> state \<Rightarrow> exn option \<times> state" where
  "cycle e cfg s =
     (case scan_roots (wld s) (watch_dirs cfg) [] [] of
        None \<Rightarrow> (Some OSError, s)
      | Some (video_map, subs_map) \<Rightarrow> for_candidates e cfg subs_map video_map s)"

text \<open>
  One turn of \<open>while True\<close>, lines 151 to 196: the cycle, whose exception is caught and
  logged, then the interval sleep, which stands outside the \<open>try\<close>.
\<close>

definition poll_once :: "env \<Rightarrow> config \<Rightarrow> state \<Rightarrow> exn + state" where
  "poll_once e cfg s = time_sleep e (poll_interval cfg) (snd (cycle e cfg s))"

text \<open>
  The poll loop. A result \<open>Some (x, s)\<close> says that the loop was left in state \<open>s\<close> by the
  exception \<open>x\<close>, which nothing catches; \<open>None\<close> says that it never returns.
\<close>

partial_function (option) service_loop :: "env \<Rightarrow> config \<Rightarrow> state \<Rightarrow> (exn \<times> state) option" where
  "service_loop e cfg s =
     (case poll_once e cfg s of
        Inl x \<Rightarrow> Some (x, snd (cycle e cfg s))
      | Inr s' \<Rightarrow> service_loop e cfg s')"

text \<open>The state after \<open>n\<close> turns of the loop, or the exception that ended it before.\<close>

fun turns :: "nat \<Rightarrow> env \<Rightarrow> config \<Rightarrow> state \<Rightarrow> exn + state" where
  "turns 0 e cfg s = Inr s"
| "turns (Suc n) e cfg s =
     (case poll_once e cfg s of
        Inl x \<Rightarrow> Inl x
      | Inr s' \<Rightarrow> turns n e cfg s')"

subsection \<open>The scanner and the merge in the words of the specification\<close>

text \<open>
  An extension as the allow-lists have them: a dot followed by characters that are neither
  a dot nor a separator.
\<close>

definition plain_ext :: "string \<Rightarrow> bool" where
  "plain_ext x = (\<exists>y. x = CHR ''.'' # y \<and> CHR ''.'' \<notin> set y \<and> CHR ''/'' \<notin> set y)"

text \<open>
  What the specification says the scanner keeps: a direct child of the root (a name that
  \<open>os.listdir\<close> gives) that is a regular file, whose name does not start with a dot and
  whose extension, compared without regard to case, is in the allow-list.
\<close>

definition spec_video_child :: "world \<Rightarrow> path \<Rightarrow> string \<Rightarrow> bool" where
  "spec_video_child w dir name =
     (isfile w (join dir name) \<and> \<not> startswith name ''.''
      \<and> lower (snd (splitext name)) \<in> set VIDEO_EXTS)"

definition spec_sub_child :: "world \<Rightarrow> path \<Rightarrow> string \<Rightarrow> bool" where
  "spec_sub_child w dir name =
     (isfile w (join dir name) \<and> \<not> startswith name ''.''
      \<and> lower (snd (splitext name)) = ''.srt'')"

text \<open>The paths of a scan result that have a given stem, in the order of the scan.\<close>

definition with_stem :: "string \<Rightarrow> path list \<Rightarrow> path list" where
  "with_stem k vs = filter (\<lambda>v. stem v = k) vs"

subsection \<open>Observing a run\<close>

text \<open>The events that a step from \<open>s\<close> to \<open>s'\<close> appended to the trace.\<close>

definition new_events :: "state \<Rightarrow> state \<Rightarrow> event list" where
  "new_events s s' = drop (length (trace s)) (trace s')"

text \<open>The events of moving the inputs away: \<open>os.makedirs\<close> and \<open>shutil.move\<close>.\<close>

fun is_relocation :: "event \<Rightarrow> bool" where
  "is_relocation (MakeDirs p) = True"
| "is_relocation (Move src dst) = True"
| "is_relocation ev = False"

text \<open>The state after the one second that the stability gate waits.\<close>

definition after_wait :: "env \<Rightarrow> state \<Rightarrow> state" where
  "after_wait e s = s\<lparr>wld := elapse e 1 (wld s), trace := trace s @ [Sleep 1]\<rparr>"

text \<open>A file operation that writes to the file \<open>p\<close> and to nothing else.\<close>

fun touches_only :: "path \<Rightarrow> fs_op \<Rightarrow> bool" where
  "touches_only p (OpenW q) = (q = p)"
| "touches_only p (Write q chunk) = (q = p)"
| "touches_only p (Replace src dst) = False"

text \<open>
  Every record that \<open>s'\<close> has and \<open>s\<close> had not (or had differently) is the record of a
  video whose invocation, among the events between the two states, exited with status
  zero.
\<close>

definition records_justified :: "env \<Rightarrow> state \<Rightarrow> state \<Rightarrow> bool" where
  "records_justified e s s' =
     ((\<exists>evs. trace s' = trace s @ evs)
      \<and> (\<forall>k. db s' k \<noteq> db s k \<longrightarrow>
            (\<exists>vpath cmd. k = abspath e vpath \<and> take 3 cmd = [''cleanvid'', ''-i'', vpath]
               \<and> Run cmd (Exited 0) \<in> set (new_events s s'))))"

subsection \<open>Example instances\<close>

text \<open>
  A small world, environment and configuration on which the theorems below are
  instantiated: a watch root \<open>/in\<close> holding two videos, a subtitle, a hidden file, a
  text file and a directory named like a video; a second root \<open>/usb1\<close> holding a video of
  the same stem as one in \<open>/in\<close>; a store file; a tool that always succeeds; time that
  only advances the clock.
\<close>

definition ex_world :: world where
  "ex_world =
     \<lparr>os_stat = (\<lambda>p.
        if p = ''/in'' \<or> p = ''/usb1'' \<or> p = ''/in/clips.mp4''
        then Some \<lparr>st_mode = Directory, st_size = 4096, st_mtime = 100\<rparr>
        else if p = ''/in/a.mp4'' then Some \<lparr>st_mode = Regular, st_size = 10, st_mtime = 2469 / 2\<rparr>
        else if p = ''/in/a.srt'' then Some \<lparr>st_mode = Regular, st_size = 3, st_mtime = 50\<rparr>
        else if p = ''/in/.b.mp4'' then Some \<lparr>st_mode = Regular, st_size = 7, st_mtime = 60\<rparr>
        else if p = ''/in/notes.txt'' then Some \<lparr>st_mode = Regular, st_size = 1, st_mtime = 70\<rparr>
        else if p = ''/in/B.MKV'' then Some \<lparr>st_mode = Regular, st_size = 20, st_mtime = 80\<rparr>
        else if p = ''/usb1/a.mkv'' then Some \<lparr>st_mode = Regular, st_size = 30, st_mtime = 90\<rparr>
        else if p = ''/data/db.json'' then Some \<lparr>st_mode = Regular, st_size = 2, st_mtime = 1000\<rparr>
        else None),
      os_listdir = (\<lambda>p.
        if p = ''/in'' then Some [''a.mp4'', ''a.srt'', ''.b.mp4'', ''notes.txt'', ''clips.mp4'', ''B.MKV'']
        else if p = ''/usb1'' then Some [''a.mkv'']
        else None),
      file_text = (\<lambda>p. if p = ''/data/db.json'' then Some ''{}'' else None),
      clock = 2000\<rparr>"

text \<open>The same world after a cleaned output was written next to \<open>/in/a.mp4\<close>.\<close>

definition ex_world_after :: world where
  "ex_world_after =
     ex_world\<lparr>os_stat := (os_stat ex_world)
                 (''/in/a_clean.mp4'' \<mapsto> \<lparr>st_mode = Regular, st_size = 9, st_mtime = 2001\<rparr>),
              os_listdir := (os_listdir ex_world)
                 (''/in'' \<mapsto> [''a.mp4'', ''a.srt'', ''.b.mp4'', ''notes.txt'', ''clips.mp4'', ''B.MKV'',
                              ''a_clean.mp4''])\<rparr>"

definition ex_env :: env where
  "ex_env =
     \<lparr>subprocess_run = (\<lambda>cmd w. (Exited 0, w)),
      os_makedirs = (\<lambda>p w. (True, w)),
      shutil_move = (\<lambda>src dst w. (True, w)),
      elapse = (\<lambda>d w. w\<lparr>clock := clock w + d\<rparr>),
      abspath = (\<lambda>p. p),
      json_dumps = (\<lambda>d. ''{...}''),
      json_loads = (\<lambda>t. Some Map.empty),
      save_fault = (\<lambda>w. None),
      timer_limit = (\<lambda>w. 9000000000)\<rparr>"

definition ex_cfg :: config where
  "ex_cfg =
     \<lparr>watch_dirs = [''/in''], output_dir = ''/out'', processed_dir = ''/processed'',
      poll_interval = Finite 10, preserve_input = True, write_next_to_input = True,
      swears_file = ''/data/swears.txt'', processed_db = ''/data/db.json''\<rparr>"

text \<open>A tool that always fails, and an outside that keeps writing to \<open>/in/a.mp4\<close>.\<close>

definition ex_env_failing :: env where
  "ex_env_failing = ex_env\<lparr>subprocess_run := (\<lambda>cmd w. (Exited 1, w))\<rparr>"

definition ex_env_growing :: env where
  "ex_env_growing =
     ex_env\<lparr>elapse := (\<lambda>d w. w\<lparr>os_stat := (os_stat w)
        (''/in/a.mp4'' \<mapsto> \<lparr>st_mode = Regular, st_size = 11, st_mtime = 2000\<rparr>)\<rparr>)\<rparr>"

text \<open>The service at its start with an empty store, and with \<open>/in/a.mp4\<close> recorded.\<close>

definition ex_state :: state where
  "ex_state = \<lparr>wld = ex_world, db = Map.empty, trace = []\<rparr>"

definition ex_state_done :: state where
  "ex_state_done =
     \<lparr>wld = ex_world,
      db = [''/in/a.mp4'' \<mapsto>
             \<lparr>video = Some \<lparr>fsize = 10, mtime = 1234\<rparr>,
              subs = Some \<lparr>fsize = 3, mtime = 50\<rparr>, processed_at = 1900\<rparr>],
      trace = []\<rparr>"

section \<open>Properties\<close>

subsection \<open>Facts about the path functions\<close>

lemma rfind_notin: "c \<notin> set s \<Longrightarrow> rfind s c = - 1"
  by (simp add: rfind_def)

lemma rfind_append:
  "rfind (xs @ ys) c = (if c \<in> set ys then int (length xs) + rfind ys c else rfind xs c)"
proof (cases "c \<in> set ys")
  case True
  then have "takeWhile (\<lambda>x. x \<noteq> c) (rev ys @ rev xs) = takeWhile (\<lambda>x. x \<noteq> c) (rev ys)"
    by (intro takeWhile_append1[where x=c]) auto
  with True show ?thesis by (simp add: rfind_def)
next
  case False
  then have "takeWhile (\<lambda>x. x \<noteq> c) (rev ys @ rev xs) = rev ys @ takeWhile (\<lambda>x. x \<noteq> c) (rev xs)"
    by (intro takeWhile_append2) auto
  with False show ?thesis by (simp add: rfind_def)
qed

lemma rfind_last: "c \<notin> set post \<Longrightarrow> rfind (pre @ c # post) c = int (length pre)"
proof -
  assume "c \<notin> set post"
  then have "takeWhile (\<lambda>x. x \<noteq> c) (rev post @ c # rev pre) = rev post"
    by (auto simp: takeWhile_tail)
  then show ?thesis by (simp add: rfind_def)
qed

lemma rfind_bounds: "- 1 \<le> rfind s c \<and> rfind s c < int (length s)"
proof (cases "c \<in> set s")
  case True
  then obtain pre post where "s = pre @ c # post" "c \<notin> set post"
    by (meson split_list_last)
  then show ?thesis by (simp add: rfind_last)
qed (simp add: rfind_def)

lemma splitext_scan_iff:
  "splitext_scan p i j \<longleftrightarrow> (\<exists>k. i \<le> k \<and> k < j \<and> take 1 (drop k p) \<noteq> ''.'')"
proof (induction p i j rule: splitext_scan.induct)
  case (1 p i j)
  show ?case
  proof (cases "i < j")
    case False
    then show ?thesis by (subst splitext_scan.simps) auto
  next
    case True
    show ?thesis
    proof (cases "take 1 (drop i p) \<noteq> ''.''")
      case True
      with \<open>i < j\<close> show ?thesis by (subst splitext_scan.simps) auto
    next
      case False
      with \<open>i < j\<close> have "splitext_scan p i j = splitext_scan p (i + 1) j"
        by (subst splitext_scan.simps) simp
      also have "\<dots> \<longleftrightarrow> (\<exists>k. i + 1 \<le> k \<and> k < j \<and> take 1 (drop k p) \<noteq> ''.'')"
        using 1 True False by simp
      also have "\<dots> \<longleftrightarrow> (\<exists>k. i \<le> k \<and> k < j \<and> take 1 (drop k p) \<noteq> ''.'')"
        using False by (metis Suc_eq_plus1 Suc_leD Suc_le_eq le_neq_implies_less)
      finally show ?thesis .
    qed
  qed
qed

lemma splitext_scan_shift:
  "splitext_scan (h @ b) (length h + i) (length h + j) = splitext_scan b i j"
proof -
  have "(\<exists>k. length h + i \<le> k \<and> k < length h + j \<and> take 1 (drop k (h @ b)) \<noteq> ''.'')
      \<longleftrightarrow> (\<exists>k. i \<le> k \<and> k < j \<and> take 1 (drop k b) \<noteq> ''.'')" (is "?L \<longleftrightarrow> ?R")
  proof
    assume ?L
    then obtain k where k: "length h + i \<le> k" "k < length h + j" "take 1 (drop k (h @ b)) \<noteq> ''.''"
      by blast
    then have "i \<le> k - length h \<and> k - length h < j \<and> take 1 (drop (k - length h) b) \<noteq> ''.''"
      by auto
    then show ?R by blast
  next
    assume ?R
    then obtain k where k: "i \<le> k" "k < j" "take 1 (drop k b) \<noteq> ''.''" by blast
    then have "length h + i \<le> length h + k \<and> length h + k < length h + j
        \<and> take 1 (drop (length h + k) (h @ b)) \<noteq> ''.''"
      by auto
    then show ?L by blast
  qed
  then show ?thesis by (simp add: splitext_scan_iff)
qed

lemma splitext_append: "fst (splitext p) @ snd (splitext p) = p"
  by (simp add: splitext_def Let_def)


lemma nat_int_Suc: "nat (int n + 1) = Suc n"
  by simp

lemma take1_drop: "k < length xs \<Longrightarrow> take 1 (drop k xs) = [xs ! k]"
proof -
  assume "k < length xs"
  then have "drop k xs = xs ! k # drop (Suc k) xs" by (simp add: Cons_nth_drop_Suc)
  then show ?thesis by simp
qed

lemma basename_split:
  obtains h where "p = h @ basename p" "CHR ''/'' \<notin> set (basename p)"
    "rfind p CHR ''/'' = int (length h) - 1" "h = [] \<or> last h = CHR ''/''"
proof (cases "CHR ''/'' \<in> set p")
  case False
  then have "rfind p CHR ''/'' = - 1" by (rule rfind_notin)
  with False have "p = [] @ basename p" "CHR ''/'' \<notin> set (basename p)"
    "rfind p CHR ''/'' = int (length ([]::string)) - 1"
    by (simp_all add: basename_def)
  then show ?thesis using that by blast
next
  case True
  then obtain pre post where p: "p = pre @ CHR ''/'' # post" "CHR ''/'' \<notin> set post"
    by (meson split_list_last)
  then have r: "rfind p CHR ''/'' = int (length pre)" by (simp add: rfind_last)
  then have "basename p = post" using p by (simp add: basename_def nat_int_Suc)
  with p r have "p = (pre @ ''/'') @ basename p" "CHR ''/'' \<notin> set (basename p)"
    "rfind p CHR ''/'' = int (length (pre @ ''/'')) - 1" "last (pre @ ''/'') = CHR ''/''"
    by simp_all
  then show ?thesis using that by blast
qed

lemma splitext_prefix:
  assumes "CHR ''/'' \<notin> set b" "rfind (h @ b) CHR ''/'' = int (length h) - 1"
  shows "splitext (h @ b) = (h @ fst (splitext b), snd (splitext b))"
proof (cases "CHR ''.'' \<in> set b")
  case True
  then obtain q r where b: "b = q @ CHR ''.'' # r" "CHR ''.'' \<notin> set r"
    by (meson split_list_last)
  have d1: "rfind b CHR ''.'' = int (length q)" using b by (simp add: rfind_last)
  have d2: "rfind (h @ b) CHR ''.'' = int (length h) + int (length q)"
    using True d1 by (simp add: rfind_append)
  have s: "rfind b CHR ''/'' = - 1" using assms(1) by (rule rfind_notin)
  have sc: "splitext_scan (h @ b) (length h + 0) (length h + length q) = splitext_scan b 0 (length q)"
    by (rule splitext_scan_shift)
  have n1: "nat (int (length h) - 1 + 1) = length h" by simp
  have n2: "nat (int (length h) + int (length q)) = length h + length q" by simp
  show ?thesis
    using sc by (simp add: splitext_def Let_def d1 d2 s assms(2) n1 n2 del: of_nat_add)
next
  case False
  then have d1: "rfind b CHR ''.'' = - 1" by (rule rfind_notin)
  have "rfind (h @ b) CHR ''.'' = rfind h CHR ''.''" using False by (simp add: rfind_append)
  then have d2: "rfind (h @ b) CHR ''.'' \<le> int (length h) - 1"
    using rfind_bounds[of h "CHR ''.''"] by simp
  show ?thesis
    using d2 by (simp add: splitext_def d1 assms(2) rfind_notin[OF assms(1)])
qed

lemma splitext_basename:
  "snd (splitext p) = snd (splitext (basename p))"
  "fst (splitext (basename p)) @ snd (splitext p) = basename p"
proof -
  obtain h where h: "p = h @ basename p" "CHR ''/'' \<notin> set (basename p)"
    "rfind p CHR ''/'' = int (length h) - 1"
    by (rule basename_split)
  have "splitext (h @ basename p) = (h @ fst (splitext (basename p)), snd (splitext (basename p)))"
    using h by (intro splitext_prefix) simp_all
  then show "snd (splitext p) = snd (splitext (basename p))" using h(1) by simp
  then show "fst (splitext (basename p)) @ snd (splitext p) = basename p"
    by (simp add: splitext_append)
qed

lemma splitext_name:
  assumes "CHR ''/'' \<notin> set t" "CHR ''/'' \<notin> set x" "CHR ''.'' \<notin> set x" "\<exists>c\<in>set t. c \<noteq> CHR ''.''"
  shows "splitext (t @ CHR ''.'' # x) = (t, CHR ''.'' # x)"
proof -
  have s: "rfind (t @ CHR ''.'' # x) CHR ''/'' = - 1" using assms by (intro rfind_notin) simp
  have d: "rfind (t @ CHR ''.'' # x) CHR ''.'' = int (length t)" using assms by (simp add: rfind_last)
  from assms(4) obtain k where k: "k < length t" "t ! k \<noteq> CHR ''.''"
    by (metis in_set_conv_nth)
  then have "take 1 (drop k (t @ CHR ''.'' # x)) = [t ! k]"
    using take1_drop[of k t] by simp
  with k have "splitext_scan (t @ CHR ''.'' # x) 0 (length t)"
    by (auto simp: splitext_scan_iff)
  then show ?thesis by (simp add: splitext_def s d)
qed

lemma basename_join: "CHR ''/'' \<notin> set e \<Longrightarrow> basename (join d e) = e"
proof -
  assume e: "CHR ''/'' \<notin> set e"
  then have ns: "\<not> startswith e ''/''" by (cases e) (auto simp: startswith_def)
  have *: "basename (h @ e) = e" if "h = [] \<or> last h = CHR ''/''" for h
  proof (cases "h = []")
    case True
    then show ?thesis using e by (simp add: basename_def rfind_notin)
  next
    case False
    with that obtain pre where "h = pre @ ''/''" by (metis append_butlast_last_id)
    then have "rfind (h @ e) CHR ''/'' = int (length pre)" using e by (simp add: rfind_last)
    then show ?thesis using \<open>h = pre @ ''/''\<close> by (simp add: basename_def nat_int_Suc)
  qed
  show ?thesis
  proof (cases "d = [] \<or> endswith d ''/''")
    case True
    then have "d = [] \<or> last d = CHR ''/''"
      by (auto simp: endswith_def last_drop dest!: arg_cong[where f=last])
    then show ?thesis using True ns * by (simp add: join_def)
  next
    case False
    then have "join d e = (d @ ''/'') @ e" using ns by (simp add: join_def)
    then show ?thesis using *[of "d @ ''/''"] by simp
  qed
qed

lemma basename_no_sep: "CHR ''/'' \<notin> set (basename p)"
  using basename_split[of p] by blast

lemma stem_no_sep: "CHR ''/'' \<notin> set (stem p)"
proof -
  have "set (fst (splitext (basename p))) \<subseteq> set (basename p)"
    by (metis splitext_append set_append Un_upper1)
  then show ?thesis using basename_no_sep[of p] by (auto simp: stem_def)
qed

lemma ext_no_sep: "CHR ''/'' \<notin> set (snd (splitext p))"
proof -
  have "set (snd (splitext (basename p))) \<subseteq> set (basename p)"
    by (metis splitext_append set_append Un_upper2)
  then show ?thesis using basename_no_sep[of p] splitext_basename(1)[of p] by auto
qed

lemma stem_ext: "stem p @ snd (splitext p) = basename p"
  by (simp add: stem_def splitext_basename(2))

lemma not_all_same: "h \<noteq> replicate (length h) x \<Longrightarrow> \<exists>c\<in>set h. c \<noteq> x"
proof (rule ccontr)
  assume a: "h \<noteq> replicate (length h) x" and "\<not> (\<exists>c\<in>set h. c \<noteq> x)"
  then have "\<forall>y\<in>set h. y = x" by blast
  then have "replicate (length h) x = h" by (rule replicate_length_same)
  with a show False by simp
qed

lemma rstrip_props:
  assumes "\<exists>c\<in>set h. c \<noteq> x"
  shows "rstrip h x \<noteq> []" and "last (rstrip h x) \<noteq> x"
proof -
  from assms have ne: "dropWhile (\<lambda>y. y = x) (rev h) \<noteq> []"
    by (auto simp: dropWhile_eq_Nil_conv)
  then have "hd (dropWhile (\<lambda>y. y = x) (rev h)) \<noteq> x"
    using hd_dropWhile[of "\<lambda>y. y = x" "rev h"] by blast
  with ne show "rstrip h x \<noteq> []" and "last (rstrip h x) \<noteq> x"
    by (simp_all add: rstrip_def last_rev)
qed

lemma dirname_cases:
  "dirname p = [] \<or> (\<exists>k. dirname p = replicate (Suc k) CHR ''/'')
     \<or> (dirname p \<noteq> [] \<and> last (dirname p) \<noteq> CHR ''/'')"
proof -
  define head where "head = take (nat (rfind p CHR ''/'' + 1)) p"
  have dn: "dirname p = (if head \<noteq> [] \<and> head \<noteq> replicate (length head) CHR ''/''
                         then rstrip head CHR ''/'' else head)"
    unfolding dirname_def head_def Let_def by (rule refl)
  show ?thesis
  proof (cases "head \<noteq> [] \<and> head \<noteq> replicate (length head) CHR ''/''")
    case False
    have dh: "dirname p = head" by (subst dn) (rule if_not_P[OF False])
    show ?thesis
    proof (cases "head = []")
      case True
      with dh show ?thesis by blast
    next
      case ne: False
      with False have eq: "head = replicate (length head) CHR ''/''" by blast
      from ne obtain k where "length head = Suc k" by (cases head) auto
      with eq have "head = replicate (Suc k) CHR ''/''" by metis
      with dh show ?thesis by blast
    qed
  next
    case True
    have d: "dirname p = rstrip head CHR ''/''" by (subst dn) (rule if_P[OF True])
    from True have "\<exists>c\<in>set head. c \<noteq> CHR ''/''" by (blast intro: not_all_same)
    then have "rstrip head CHR ''/'' \<noteq> []" "last (rstrip head CHR ''/'') \<noteq> CHR ''/''"
      by (rule rstrip_props)+
    then show ?thesis unfolding d by blast
  qed
qed


lemma dirname_no_sep: "CHR ''/'' \<notin> set n \<Longrightarrow> dirname n = []"
  by (simp add: dirname_def rfind_notin)

lemma dirname_slashes_name:
  assumes "CHR ''/'' \<notin> set n"
  shows "dirname (replicate (Suc k) CHR ''/'' @ n) = replicate (Suc k) CHR ''/''"
proof -
  have e: "replicate (Suc k) CHR ''/'' @ n = replicate k CHR ''/'' @ CHR ''/'' # n"
    by (simp add: replicate_app_Cons_same)
  have r: "rfind (replicate k CHR ''/'' @ CHR ''/'' # n) CHR ''/'' = int k"
    using assms rfind_last[of "CHR ''/''" n "replicate k CHR ''/''"] by simp
  have t: "take (nat (int k + 1)) (replicate k CHR ''/'' @ CHR ''/'' # n) = replicate (Suc k) CHR ''/''"
    by (simp add: nat_int_Suc replicate_app_Cons_same)
  show ?thesis
    unfolding e unfolding dirname_def r t Let_def by simp
qed

lemma rstrip_snoc: "D \<noteq> [] \<Longrightarrow> last D \<noteq> x \<Longrightarrow> rstrip (D @ [x]) x = D"
proof -
  assume D: "D \<noteq> []" "last D \<noteq> x"
  then obtain c cs where r: "rev D = c # cs" by (cases "rev D") auto
  then have "c = last D" using D(1) by (metis last_rev list.sel(1) rev_rev_ident rev_is_Nil_conv)
  with D(2) have "c \<noteq> x" by simp
  with r have "dropWhile (\<lambda>y. y = x) (x # rev D) = rev D" by simp
  then show ?thesis by (simp add: rstrip_def)
qed

lemma dirname_dir_name:
  assumes "CHR ''/'' \<notin> set n" "D \<noteq> []" "last D \<noteq> CHR ''/''"
  shows "dirname (D @ CHR ''/'' # n) = D"
proof -
  have r: "rfind (D @ CHR ''/'' # n) CHR ''/'' = int (length D)"
    using assms(1) by (simp add: rfind_last)
  have t: "take (nat (int (length D) + 1)) (D @ CHR ''/'' # n) = D @ ''/''"
    by (simp add: nat_int_Suc)
  have ne: "D @ ''/'' \<noteq> replicate (length (D @ ''/'')) CHR ''/''"
  proof
    assume eq: "D @ ''/'' = replicate (length (D @ ''/'')) CHR ''/''"
    have "last D \<in> set (D @ ''/'')" using assms(2) by simp
    then have "last D \<in> set (replicate (length (D @ ''/'')) CHR ''/'')"
      by (subst eq[symmetric])
    then have "last D = CHR ''/''" by (simp only: in_set_replicate)
    with assms(3) show False by simp
  qed
  have c: "D @ ''/'' \<noteq> [] \<and> D @ ''/'' \<noteq> replicate (length (D @ ''/'')) CHR ''/''"
    using ne by blast
  have "dirname (D @ CHR ''/'' # n) = rstrip (D @ ''/'') CHR ''/''"
    unfolding dirname_def r t Let_def by (rule if_P[OF c])
  then show ?thesis using rstrip_snoc[OF assms(2,3)] by simp
qed

lemma no_sep_not_startswith: "CHR ''/'' \<notin> set n \<Longrightarrow> \<not> startswith n ''/''"
  by (cases n) (auto simp: startswith_def)

lemma endswith_slash: "endswith D ''/'' \<longleftrightarrow> D \<noteq> [] \<and> last D = CHR ''/''"
proof (cases D rule: rev_cases)
  case Nil
  then show ?thesis by (simp add: endswith_def)
next
  case (snoc ys y)
  then show ?thesis by (auto simp: endswith_def)
qed

lemma dirname_join_dirname:
  assumes "CHR ''/'' \<notin> set n"
  shows "dirname (join (dirname p) n) = dirname p"
proof -
  have ns: "\<not> startswith n ''/''" using assms by (rule no_sep_not_startswith)
  consider "dirname p = []"
    | k where "dirname p = replicate (Suc k) CHR ''/''"
    | "dirname p \<noteq> []" "last (dirname p) \<noteq> CHR ''/''"
    using dirname_cases[of p] by blast
  then show ?thesis
  proof cases
    case 1
    then have "join (dirname p) n = n" using ns by (simp add: join_def)
    then show ?thesis using 1 dirname_no_sep[OF assms] by simp
  next
    case 2
    have "endswith (replicate (Suc k) CHR ''/'') ''/''"
      unfolding endswith_slash by simp
    then have "join (replicate (Suc k) CHR ''/'') n = replicate (Suc k) CHR ''/'' @ n"
      using ns by (simp add: join_def)
    then show ?thesis
      unfolding 2 using dirname_slashes_name[OF assms, of k] by simp
  next
    case 3
    then have "join (dirname p) n = dirname p @ CHR ''/'' # n"
      using ns by (simp add: join_def endswith_slash)
    then show ?thesis using dirname_dir_name[OF assms 3] by simp
  qed
qed

subsection \<open>Facts about the scanner and the merge\<close>

lemma lower_char_dot: "lower_char c = CHR ''.'' \<longleftrightarrow> c = CHR ''.''"
  by (simp add: lower_char_def)

lemma endswith_iff: "endswith s x \<longleftrightarrow> (\<exists>t. s = t @ x)"
proof
  assume "endswith s x"
  then have "s = take (length s - length x) s @ x"
    by (metis append_take_drop_id endswith_def)
  then show "\<exists>t. s = t @ x" ..
next
  assume "\<exists>t. s = t @ x"
  then show "endswith s x" by (auto simp: endswith_def)
qed

lemma lower_append: "lower (a @ b) = lower a @ lower b"
  by (simp add: lower_def)

lemma lower_eq_appendD: "lower e = t' @ x \<Longrightarrow> \<exists>t u. e = t @ u \<and> lower t = t' \<and> lower u = x"
  unfolding lower_def by (metis append_eq_map_conv)

lemma lower_dot_free: "CHR ''.'' \<in> set (lower u) \<longleftrightarrow> CHR ''.'' \<in> set u"
proof -
  have "CHR ''.'' \<in> set (lower u) \<longleftrightarrow> (\<exists>c\<in>set u. lower_char c = CHR ''.'')"
    unfolding lower_def by (simp add: image_iff) metis
  then show ?thesis by (simp add: lower_char_dot)
qed

lemma accepted_name_split:
  assumes x: "plain_ext x" and e: "CHR ''/'' \<notin> set e" "\<not> startswith e ''.''"
    and m: "endswith (lower e) x"
  obtains a t u where "e = (a # t) @ CHR ''.'' # u" "a \<noteq> CHR ''.''" "CHR ''.'' \<notin> set u"
    "lower (CHR ''.'' # u) = x" "splitext e = (a # t, CHR ''.'' # u)"
proof -
  from m obtain t' where "lower e = t' @ x" unfolding endswith_iff by blast
  then obtain t u where tu: "e = t @ u" "lower u = x" using lower_eq_appendD by blast
  from x obtain y where y: "x = CHR ''.'' # y" "CHR ''.'' \<notin> set y" "CHR ''/'' \<notin> set y"
    unfolding plain_ext_def by blast
  from tu(2) y(1) obtain c u' where u: "u = c # u'" "lower_char c = CHR ''.''" "lower u' = y"
    unfolding lower_def by auto
  then have c: "c = CHR ''.''" by (simp add: lower_char_dot)
  have nd: "CHR ''.'' \<notin> set u'" using lower_dot_free[of u'] u(3) y(2) by simp
  have nsu: "CHR ''/'' \<notin> set u'" using e(1) tu(1) u(1) by simp
  have nst: "CHR ''/'' \<notin> set t" using e(1) tu(1) by simp
  have "t \<noteq> []"
  proof
    assume "t = []"
    then have "startswith e ''.''" using tu(1) u(1) c by (simp add: startswith_def)
    with e(2) show False by simp
  qed
  then obtain a t2 where t: "t = a # t2" by (cases t) auto
  have a: "a \<noteq> CHR ''.''"
  proof
    assume "a = CHR ''.''"
    then have "startswith e ''.''" using tu(1) t by (simp add: startswith_def)
    with e(2) show False by simp
  qed
  then have "\<exists>c\<in>set t. c \<noteq> CHR ''.''" using t by auto
  then have "splitext (t @ CHR ''.'' # u') = (t, CHR ''.'' # u')"
    using nst nsu nd by (intro splitext_name) simp_all
  then have "splitext e = (a # t2, CHR ''.'' # u')" using tu(1) u(1) c t by simp
  moreover have "e = (a # t2) @ CHR ''.'' # u'" using tu(1) u(1) c t by simp
  moreover have "lower (CHR ''.'' # u') = x" using tu(2) u(1) c by simp
  ultimately show ?thesis using that a nd by blast
qed

lemma ext_match:
  assumes x: "plain_ext x" and e: "CHR ''/'' \<notin> set e" "\<not> startswith e ''.''"
  shows "endswith (lower e) x \<longleftrightarrow> lower (snd (splitext e)) = x"
proof
  assume "lower (snd (splitext e)) = x"
  then have "lower e = lower (fst (splitext e)) @ x"
    using splitext_append[of e] lower_append[of "fst (splitext e)" "snd (splitext e)"] by simp
  then show "endswith (lower e) x" unfolding endswith_iff by blast
next
  assume "endswith (lower e) x"
  with assms obtain a t u where "lower (CHR ''.'' # u) = x" "splitext e = (a # t, CHR ''.'' # u)"
    by (rule accepted_name_split)
  then show "lower (snd (splitext e)) = x" by simp
qed

lemma VIDEO_EXTS_plain: "x \<in> set VIDEO_EXTS \<Longrightarrow> plain_ext x"
  unfolding VIDEO_EXTS_def plain_ext_def by auto

lemma srt_plain: "plain_ext ''.srt''"
  unfolding plain_ext_def by simp

lemma video_match:
  assumes "CHR ''/'' \<notin> set e" "\<not> startswith e ''.''"
  shows "endswith_any (lower e) VIDEO_EXTS \<longleftrightarrow> lower (snd (splitext e)) \<in> set VIDEO_EXTS"
proof -
  have "endswith_any (lower e) VIDEO_EXTS \<longleftrightarrow> (\<exists>x\<in>set VIDEO_EXTS. endswith (lower e) x)"
    by (simp add: endswith_any_def list_ex_iff)
  also have "\<dots> \<longleftrightarrow> (\<exists>x\<in>set VIDEO_EXTS. lower (snd (splitext e)) = x)"
    using ext_match[OF VIDEO_EXTS_plain assms] by blast
  finally show ?thesis by blast
qed

lemma find_videos_loop_filter:
  "\<forall>e\<in>set es. CHR ''/'' \<notin> set e \<Longrightarrow>
   find_videos_loop w dir es = map (join dir) (filter (spec_video_child w dir) es)"
proof (induction es)
  case Nil
  then show ?case by simp
next
  case (Cons e es)
  then have e: "CHR ''/'' \<notin> set e" and ih: "find_videos_loop w dir es = map (join dir) (filter (spec_video_child w dir) es)"
    by simp_all
  note sp = spec_video_child_def[of w dir e]
  show ?case
  proof (cases "startswith e ''.''")
    case True
    then show ?thesis using ih sp by simp
  next
    case False
    then show ?thesis using ih sp video_match[OF e False]
      by (simp add: Let_def)
  qed
qed

lemma find_subs_loop_filter:
  "\<forall>e\<in>set es. CHR ''/'' \<notin> set e \<Longrightarrow>
   find_subs_loop w dir es = map (join dir) (filter (spec_sub_child w dir) es)"
proof (induction es)
  case Nil
  then show ?case by simp
next
  case (Cons e es)
  then have e: "CHR ''/'' \<notin> set e" and ih: "find_subs_loop w dir es = map (join dir) (filter (spec_sub_child w dir) es)"
    by simp_all
  note sp = spec_sub_child_def[of w dir e]
  show ?case
  proof (cases "startswith e ''.''")
    case True
    then show ?thesis using ih sp by simp
  next
    case False
    then show ?thesis using ih sp ext_match[OF srt_plain e False]
      by (simp add: Let_def)
  qed
qed

lemma map_of_dict_set: "map_of (dict_set k v m) = (map_of m)(k \<mapsto> v)"
  by (induction m) auto

lemma map_of_add_all:
  "map_of (add_all vs m) k =
     (if with_stem k vs = [] then map_of m k else Some (last (with_stem k vs)))"
proof (induction vs arbitrary: m)
  case Nil
  then show ?case by (simp add: with_stem_def)
next
  case (Cons v vs)
  show ?case
  proof (cases "with_stem k vs = []")
    case True
    then show ?thesis using Cons[of "dict_set (stem v) v m"]
      by (auto simp: with_stem_def map_of_dict_set)
  next
    case False
    then show ?thesis using Cons[of "dict_set (stem v) v m"]
      by (simp add: with_stem_def)
  qed
qed

lemma scan_roots_append:
  "scan_roots w (ds1 @ ds2) vm sm =
     (case scan_roots w ds1 vm sm of
        None \<Rightarrow> None
      | Some (vm', sm') \<Rightarrow> scan_roots w ds2 vm' sm')"
  by (induction ds1 arbitrary: vm sm) (auto split: option.splits)

lemma scan_roots_untouched_videos:
  "scan_roots w ds vm sm = Some (vm', sm') \<Longrightarrow>
   \<forall>d\<in>set ds. \<forall>vs. find_videos w d = Some vs \<longrightarrow> with_stem k vs = [] \<Longrightarrow>
   map_of vm' k = map_of vm k"
proof (induction ds arbitrary: vm sm)
  case Nil
  then show ?case by simp
next
  case (Cons d ds)
  from Cons.prems(1) obtain vs ss where
    f: "find_videos w d = Some vs" "find_subs w d = Some ss"
    and r: "scan_roots w ds (add_all vs vm) (add_all ss sm) = Some (vm', sm')"
    by (auto split: option.splits)
  have "with_stem k vs = []" using Cons.prems(2) f(1) by simp
  then have "map_of (add_all vs vm) k = map_of vm k" by (simp add: map_of_add_all)
  moreover have "map_of vm' k = map_of (add_all vs vm) k"
    using Cons.IH[OF r] Cons.prems(2) by simp
  ultimately show ?case by simp
qed

lemma scan_roots_untouched_subs:
  "scan_roots w ds vm sm = Some (vm', sm') \<Longrightarrow>
   \<forall>d\<in>set ds. \<forall>ss. find_subs w d = Some ss \<longrightarrow> with_stem k ss = [] \<Longrightarrow>
   map_of sm' k = map_of sm k"
proof (induction ds arbitrary: vm sm)
  case Nil
  then show ?case by simp
next
  case (Cons d ds)
  from Cons.prems(1) obtain vs ss where
    f: "find_videos w d = Some vs" "find_subs w d = Some ss"
    and r: "scan_roots w ds (add_all vs vm) (add_all ss sm) = Some (vm', sm')"
    by (auto split: option.splits)
  have "with_stem k ss = []" using Cons.prems(2) f(2) by simp
  then have "map_of (add_all ss sm) k = map_of sm k" by (simp add: map_of_add_all)
  moreover have "map_of sm' k = map_of (add_all ss sm) k"
    using Cons.IH[OF r] Cons.prems(2) by simp
  ultimately show ?case by simp
qed

lemma out_file_basename:
  "basename (out_file_of cfg vp) = stem vp @ ''_clean'' @ snd (splitext vp)"
proof -
  define name where "name = stem vp @ ''_clean'' @ snd (splitext vp)"
  have ns: "CHR ''/'' \<notin> set name"
    using stem_no_sep[of vp] ext_no_sep[of vp] by (simp add: name_def)
  have o: "out_file_of cfg vp = join (if write_next_to_input cfg then dirname vp else output_dir cfg) name"
    by (simp add: out_file_of_def name_def stem_def Let_def)
  show ?thesis unfolding o name_def[symmetric] using ns by (rule basename_join)
qed

lemma find_videos_loop_member:
  "e \<in> set es \<Longrightarrow> \<not> startswith e ''.'' \<Longrightarrow> isfile w (join d e) \<Longrightarrow>
   endswith_any (lower e) VIDEO_EXTS \<Longrightarrow> join d e \<in> set (find_videos_loop w d es)"
  by (induction es) (auto simp: Let_def)

subsection \<open>The example world, evaluated\<close>

lemmas path_eval = startswith_def endswith_def endswith_any_def lower_def lower_char_def
  join_def basename_def dirname_def rstrip_def splitext_def rfind_def splitext_scan.simps
  stem_def VIDEO_EXTS_def isdir_def isfile_def Let_def

lemma ex_listing_in:
  "isdir ex_world ''/in''"
  "os_listdir ex_world ''/in'' = Some [''a.mp4'', ''a.srt'', ''.b.mp4'', ''notes.txt'', ''clips.mp4'', ''B.MKV'']"
  "\<forall>e\<in>set [''a.mp4'', ''a.srt'', ''.b.mp4'', ''notes.txt'', ''clips.mp4'', ''B.MKV'']. CHR ''/'' \<notin> set e"
  "\<not> isdir ex_world ''/usb2''"
  by (simp_all add: ex_world_def isdir_def)

lemma ex_spec_children:
  "filter (spec_video_child ex_world ''/in'')
     [''a.mp4'', ''a.srt'', ''.b.mp4'', ''notes.txt'', ''clips.mp4'', ''B.MKV''] = [''a.mp4'', ''B.MKV'']"
  "filter (spec_sub_child ex_world ''/in'')
     [''a.mp4'', ''a.srt'', ''.b.mp4'', ''notes.txt'', ''clips.mp4'', ''B.MKV''] = [''a.srt'']"
  by (simp_all add: spec_video_child_def spec_sub_child_def ex_world_def path_eval)

lemma ex_scans:
  "find_videos ex_world ''/in'' = Some [''/in/a.mp4'', ''/in/B.MKV'']"
  "find_subs ex_world ''/in'' = Some [''/in/a.srt'']"
  "find_videos ex_world ''/usb1'' = Some [''/usb1/a.mkv'']"
  "find_subs ex_world ''/usb1'' = Some []"
  "find_videos ex_world ''/usb2'' = Some []"
  "find_subs ex_world ''/usb2'' = Some []"
  by (simp_all add: find_videos_def find_subs_def ex_world_def path_eval)

lemma ex_stems:
  "stem ''/in/a.mp4'' = ''a''" "stem ''/in/B.MKV'' = ''B''" "stem ''/in/a.srt'' = ''a''"
  "stem ''/usb1/a.mkv'' = ''a''"
  by (simp_all add: path_eval)

lemma ex_scan_roots:
  "scan_roots ex_world ([''/in''] @ ''/usb1'' # [''/usb2'']) [] []
     = Some ([(''a'', ''/usb1/a.mkv''), (''B'', ''/in/B.MKV'')], [(''a'', ''/in/a.srt'')])"
  by (simp add: ex_scans ex_stems)

lemmas step_eval = candidate_def time_sleep_def sleep_error_def seconds_def detect_and_process_def current_fingerprints_def
  stat_info_def truthy_def needs_processing_def process_def build_cmd_def out_file_of_def
  commit_def save_db_def relocate_def move_subtitle_def getsize_def py_int_def new_events_def
  after_wait_def

lemma ex_sizes:
  "getsize (wld ex_state) ''/in/a.mp4'' = Some 10"
  "getsize (elapse ex_env_growing 1 (wld ex_state)) ''/in/a.mp4'' = Some 11"
  "getsize (elapse ex_env 1 (wld ex_state)) ''/in/a.mp4'' = Some 10"
  by (simp_all add: getsize_def ex_state_def ex_world_def ex_env_growing_def ex_env_def)

lemma ex_candidate_trace:
  "trace (snd (candidate ex_env ex_cfg [(''a'', ''/in/a.srt'')] (''a'', ''/in/a.mp4'') ex_state))
     = [Sleep 1,
        Run [''cleanvid'', ''-i'', ''/in/a.mp4'', ''-o'', ''/in/a_clean.mp4'', ''-w'', ''/data/swears.txt'',
             ''-s'', ''/in/a.srt''] (Exited 0),
        SaveDb]"
  "db (snd (candidate ex_env ex_cfg [(''a'', ''/in/a.srt'')] (''a'', ''/in/a.mp4'') ex_state))
     = [''/in/a.mp4'' \<mapsto> \<lparr>video = Some \<lparr>fsize = 10, mtime = 1234\<rparr>,
                            subs = Some \<lparr>fsize = 3, mtime = 50\<rparr>, processed_at = 2001\<rparr>]"
  by (simp_all add: step_eval ex_state_def ex_world_def ex_env_def ex_cfg_def path_eval)

lemma ex_candidate_failing:
  "candidate ex_env_failing ex_cfg [(''a'', ''/in/a.srt'')] (''a'', ''/in/a.mp4'') ex_state
     = (None, \<lparr>wld = ex_world\<lparr>clock := 2001\<rparr>, db = Map.empty,
               trace = [Sleep 1,
                  Run [''cleanvid'', ''-i'', ''/in/a.mp4'', ''-o'', ''/in/a_clean.mp4'', ''-w'',
                       ''/data/swears.txt'', ''-s'', ''/in/a.srt''] (Exited 1)]\<rparr>)"
  by (simp add: step_eval ex_state_def ex_world_def ex_env_def ex_env_failing_def ex_cfg_def path_eval)

lemma ex_done_fingerprints:
  "current_fingerprints ex_env ''/in/a.mp4'' (map_of [(''a'', ''/in/a.srt'')] ''a'')
      (elapse ex_env 1 (wld ex_state_done))
     = (''/in/a.mp4'', Some \<lparr>fsize = 10, mtime = 1234\<rparr>, Some \<lparr>fsize = 3, mtime = 50\<rparr>)"
  "db ex_state_done ''/in/a.mp4''
     = Some \<lparr>video = Some \<lparr>fsize = 10, mtime = 1234\<rparr>,
              subs = Some \<lparr>fsize = 3, mtime = 50\<rparr>, processed_at = 1900\<rparr>"
  "getsize (wld ex_state_done) ''/in/a.mp4'' = Some 10"
  "getsize (elapse ex_env 1 (wld ex_state_done)) ''/in/a.mp4'' = Some 10"
  by (simp_all add: step_eval ex_state_done_def ex_world_def ex_env_def)

lemma ex_turn_idle:
  "turns 1 ex_env (ex_cfg\<lparr>watch_dirs := []\<rparr>) ex_state
     = Inr \<lparr>wld = ex_world\<lparr>clock := 2010\<rparr>, db = Map.empty, trace = [Sleep 10]\<rparr>"
  by (simp add: poll_once_def cycle_def time_sleep_def sleep_error_def seconds_def
      ex_cfg_def ex_env_def ex_state_def ex_world_def)

subsection \<open>Change detector\<close>

text \<open>
  Claim C1. For the key and the current fingerprints that the cycle computes for a
  candidate pair (the key is the absolute path of the video; a fingerprint is the size and
  the modification time truncated to an integer, or \<open>None\<close>; the subtitle's fingerprint is
  \<open>None\<close> when no subtitle is paired), \<open>needs\<close> is true exactly when the store has no
  record for the key, or the stored video fingerprint differs from the current one, or
  the stored subtitle fingerprint differs from the current one; it is false exactly when
  a record exists and both stored fingerprints equal the current ones.
\<close>

theorem change_detector_decision:
  assumes "current_fingerprints e vpath srt w = (key, vstat, sstat)"
  shows "key = abspath e vpath
    \<and> vstat = map_option (\<lambda>st. \<lparr>fsize = st_size st, mtime = py_int (st_mtime st)\<rparr>) (os_stat w vpath)
    \<and> sstat = (case srt of None \<Rightarrow> None | Some p \<Rightarrow> if p = [] then None else stat_info w p)
    \<and> (needs_processing d key vstat sstat \<longleftrightarrow>
          d key = None \<or> (\<exists>en. d key = Some en \<and> (video en \<noteq> vstat \<or> subs en \<noteq> sstat)))
    \<and> (\<not> needs_processing d key vstat sstat \<longleftrightarrow>
          (\<exists>en. d key = Some en \<and> video en = vstat \<and> subs en = sstat))"
proof -
  have k: "key = abspath e vpath" and v: "vstat = stat_info w vpath"
    and s: "sstat = (case srt of None \<Rightarrow> None | Some p \<Rightarrow> if truthy srt then stat_info w p else None)"
    using assms by (simp_all add: current_fingerprints_def)
  have v': "vstat = map_option (\<lambda>st. \<lparr>fsize = st_size st, mtime = py_int (st_mtime st)\<rparr>) (os_stat w vpath)"
    unfolding v stat_info_def by (cases "os_stat w vpath") simp_all
  have s': "sstat = (case srt of None \<Rightarrow> None | Some p \<Rightarrow> if p = [] then None else stat_info w p)"
    unfolding s by (cases srt) (simp_all add: truthy_def)
  have n: "needs_processing d key vstat sstat \<longleftrightarrow>
          d key = None \<or> (\<exists>en. d key = Some en \<and> (video en \<noteq> vstat \<or> subs en \<noteq> sstat))"
    by (cases "d key") (simp_all add: needs_processing_def)
  have n': "\<not> needs_processing d key vstat sstat \<longleftrightarrow>
          (\<exists>en. d key = Some en \<and> video en = vstat \<and> subs en = sstat)"
    by (cases "d key") (simp_all add: needs_processing_def)
  show ?thesis using k v' s' n n' by blast
qed

theorem change_detector_decision_witness:
  "current_fingerprints ex_env ''/in/a.mp4'' (Some ''/in/a.srt'') ex_world
     = (''/in/a.mp4'', Some \<lparr>fsize = 10, mtime = 1234\<rparr>, Some \<lparr>fsize = 3, mtime = 50\<rparr>)
   \<and> needs_processing
        (Map.empty(''/in/a.mp4'' \<mapsto> \<lparr>video = Some \<lparr>fsize = 10, mtime = 1234\<rparr>, subs = None, processed_at = 7\<rparr>))
        ''/in/a.mp4'' (Some \<lparr>fsize = 10, mtime = 1234\<rparr>) (Some \<lparr>fsize = 3, mtime = 50\<rparr>)"
proof -
  have h: "current_fingerprints ex_env ''/in/a.mp4'' (Some ''/in/a.srt'') ex_world
     = (''/in/a.mp4'', Some \<lparr>fsize = 10, mtime = 1234\<rparr>, Some \<lparr>fsize = 3, mtime = 50\<rparr>)"
    by (simp add: current_fingerprints_def ex_env_def ex_world_def stat_info_def truthy_def py_int_def)
  have "needs_processing
        (Map.empty(''/in/a.mp4'' \<mapsto> \<lparr>video = Some \<lparr>fsize = 10, mtime = 1234\<rparr>, subs = None, processed_at = 7\<rparr>))
        ''/in/a.mp4'' (Some \<lparr>fsize = 10, mtime = 1234\<rparr>) (Some \<lparr>fsize = 3, mtime = 50\<rparr>)"
    by (subst change_detector_decision[OF h, THEN conjunct2, THEN conjunct2, THEN conjunct2, THEN conjunct1])
       simp
  with h show ?thesis by (rule conjI)
qed

subsection \<open>Output file of the invoker\<close>

text \<open>
  Claim C9. The name of the output file is the name of the input file with \<open>_clean\<close>
  inserted before its extension: the input's name is its stem followed by its extension,
  the output's name is the stem, \<open>_clean\<close> and the extension. With
  \<open>write_next_to_input\<close> the output lies in the directory of the input, otherwise it is
  the output directory joined with that name.
\<close>

theorem out_file_of_clean:
  "basename (out_file_of cfg vp) = stem vp @ ''_clean'' @ snd (splitext vp)
   \<and> stem vp @ snd (splitext vp) = basename vp
   \<and> (write_next_to_input cfg \<longrightarrow> dirname (out_file_of cfg vp) = dirname vp)
   \<and> (\<not> write_next_to_input cfg \<longrightarrow>
        out_file_of cfg vp = join (output_dir cfg) (stem vp @ ''_clean'' @ snd (splitext vp)))"
proof -
  define name where "name = stem vp @ ''_clean'' @ snd (splitext vp)"
  have ns: "CHR ''/'' \<notin> set name"
    using stem_no_sep[of vp] ext_no_sep[of vp] by (simp add: name_def)
  have o: "out_file_of cfg vp = join (if write_next_to_input cfg then dirname vp else output_dir cfg) name"
    by (simp add: out_file_of_def name_def stem_def Let_def)
  have b: "basename (out_file_of cfg vp) = name"
    unfolding o using ns by (rule basename_join)
  have d: "write_next_to_input cfg \<longrightarrow> dirname (out_file_of cfg vp) = dirname vp"
    unfolding o using dirname_join_dirname[OF ns, of vp] by simp
  have j: "\<not> write_next_to_input cfg \<longrightarrow> out_file_of cfg vp = join (output_dir cfg) name"
    unfolding o by simp
  show ?thesis
    using b d j stem_ext[of vp] unfolding name_def by blast
qed

lemma stem_example: "stem ''/in/name.mp4'' = ''name''" "snd (splitext ''/in/name.mp4'') = ''.mp4''"
  by (simp_all add: stem_def basename_def splitext_def rfind_def splitext_scan.simps)

theorem out_file_of_clean_witness:
  "write_next_to_input ex_cfg
   \<and> basename (out_file_of ex_cfg ''/in/name.mp4'') = ''name_clean.mp4''
   \<and> dirname (out_file_of ex_cfg ''/in/name.mp4'') = ''/in''
   \<and> \<not> write_next_to_input (ex_cfg\<lparr>write_next_to_input := False\<rparr>)
   \<and> out_file_of (ex_cfg\<lparr>write_next_to_input := False\<rparr>) ''/in/name.mp4'' = ''/out/name_clean.mp4''"
proof -
  have d: "dirname ''/in/name.mp4'' = ''/in''"
    by (simp add: dirname_def rfind_def rstrip_def)
  have j: "join ''/out'' ''name_clean.mp4'' = ''/out/name_clean.mp4''"
    by (simp add: join_def startswith_def endswith_def)
  show ?thesis
    using out_file_of_clean[of ex_cfg "''/in/name.mp4''"]
      out_file_of_clean[of "ex_cfg\<lparr>write_next_to_input := False\<rparr>" "''/in/name.mp4''"]
    by (simp add: stem_example d j ex_cfg_def)
qed

subsection \<open>Directory scanner\<close>

text \<open>
  Claim C7. A root that is not a directory (in particular one that does not exist) yields
  nothing, without an error. For a root that is a directory, whose listing gives the names
  \<open>es\<close> of its direct children, \<open>find_videos\<close> yields exactly the children that are
  regular files, do not start with a dot and have an extension of \<open>VIDEO_EXTS\<close> up to
  case, in the order of the listing, and \<open>find_subs\<close> the same with the extension
  \<open>.srt\<close>.
\<close>

theorem scanner_direct_children:
  "(\<not> isdir w dir \<longrightarrow> find_videos w dir = Some [] \<and> find_subs w dir = Some [])
   \<and> (isdir w dir \<longrightarrow> os_listdir w dir = Some es \<longrightarrow> (\<forall>e\<in>set es. CHR ''/'' \<notin> set e) \<longrightarrow>
        find_videos w dir = Some (map (join dir) (filter (spec_video_child w dir) es))
        \<and> find_subs w dir = Some (map (join dir) (filter (spec_sub_child w dir) es)))"
  by (simp add: find_videos_def find_subs_def find_videos_loop_filter find_subs_loop_filter)

theorem scanner_direct_children_witness:
  "\<not> isdir ex_world ''/usb2''
   \<and> find_videos ex_world ''/usb2'' = Some [] \<and> find_subs ex_world ''/usb2'' = Some []
   \<and> isdir ex_world ''/in''
   \<and> os_listdir ex_world ''/in'' = Some [''a.mp4'', ''a.srt'', ''.b.mp4'', ''notes.txt'', ''clips.mp4'', ''B.MKV'']
   \<and> find_videos ex_world ''/in'' = Some [''/in/a.mp4'', ''/in/B.MKV'']
   \<and> find_subs ex_world ''/in'' = Some [''/in/a.srt'']"
proof -
  have j: "map (join ''/in'') [''a.mp4'', ''B.MKV''] = [''/in/a.mp4'', ''/in/B.MKV'']"
    "map (join ''/in'') [''a.srt''] = [''/in/a.srt'']"
    by (simp_all add: path_eval)
  show ?thesis
    using scanner_direct_children[of ex_world "''/usb2''"]
      scanner_direct_children[of ex_world "''/in''"
        "[''a.mp4'', ''a.srt'', ''.b.mp4'', ''notes.txt'', ''clips.mp4'', ''B.MKV'']"]
    unfolding ex_spec_children j
    using ex_listing_in by blast
qed

subsection \<open>Merging the watch roots\<close>

text \<open>
  Claim C8. When the scan of the configured roots succeeds and \<open>d\<close> is the last root, in
  the order of the configuration, whose scan has a video of stem \<open>k\<close>, the video kept for
  \<open>k\<close> is a video of \<open>d\<close> (the last one of that stem in the listing of \<open>d\<close>); the same
  holds for subtitles.
\<close>

theorem later_root_wins:
  assumes scan: "scan_roots w (ds1 @ d # ds2) [] [] = Some (video_map, subs_map)"
  shows "\<exists>vs ss. find_videos w d = Some vs \<and> find_subs w d = Some ss
    \<and> (with_stem k vs \<noteq> []
          \<longrightarrow> (\<forall>d'\<in>set ds2. \<forall>vs'. find_videos w d' = Some vs' \<longrightarrow> with_stem k vs' = [])
          \<longrightarrow> map_of video_map k = Some (last (with_stem k vs))
              \<and> last (with_stem k vs) \<in> set vs \<and> stem (last (with_stem k vs)) = k)
    \<and> (with_stem k ss \<noteq> []
          \<longrightarrow> (\<forall>d'\<in>set ds2. \<forall>ss'. find_subs w d' = Some ss' \<longrightarrow> with_stem k ss' = [])
          \<longrightarrow> map_of subs_map k = Some (last (with_stem k ss))
              \<and> last (with_stem k ss) \<in> set ss \<and> stem (last (with_stem k ss)) = k)"
proof -
  from scan obtain vm1 sm1 where
    r1: "scan_roots w ds1 [] [] = Some (vm1, sm1)"
    and r2: "scan_roots w (d # ds2) vm1 sm1 = Some (video_map, subs_map)"
    unfolding scan_roots_append by (auto split: option.splits)
  from r2 obtain vs ss where
    f: "find_videos w d = Some vs" "find_subs w d = Some ss"
    and r3: "scan_roots w ds2 (add_all vs vm1) (add_all ss sm1) = Some (video_map, subs_map)"
    by (auto split: option.splits)
  have mem: "xs \<noteq> [] \<Longrightarrow> last (with_stem k xs) \<in> set xs \<and> stem (last (with_stem k xs)) = k"
    if "with_stem k xs \<noteq> []" for xs
    using last_in_set[OF that] by (simp add: with_stem_def)
  have ne: "with_stem k xs \<noteq> [] \<Longrightarrow> xs \<noteq> []" for xs
    by (auto simp: with_stem_def)
  have v: "map_of video_map k = Some (last (with_stem k vs))
      \<and> last (with_stem k vs) \<in> set vs \<and> stem (last (with_stem k vs)) = k"
    if a: "with_stem k vs \<noteq> []"
      and b: "\<forall>d'\<in>set ds2. \<forall>vs'. find_videos w d' = Some vs' \<longrightarrow> with_stem k vs' = []"
  proof -
    have "map_of video_map k = map_of (add_all vs vm1) k"
      using scan_roots_untouched_videos[OF r3 b] .
    then show ?thesis using a mem[OF a ne[OF a]] by (simp add: map_of_add_all)
  qed
  have s: "map_of subs_map k = Some (last (with_stem k ss))
      \<and> last (with_stem k ss) \<in> set ss \<and> stem (last (with_stem k ss)) = k"
    if a: "with_stem k ss \<noteq> []"
      and b: "\<forall>d'\<in>set ds2. \<forall>ss'. find_subs w d' = Some ss' \<longrightarrow> with_stem k ss' = []"
  proof -
    have "map_of subs_map k = map_of (add_all ss sm1) k"
      using scan_roots_untouched_subs[OF r3 b] .
    then show ?thesis using a mem[OF a ne[OF a]] by (simp add: map_of_add_all)
  qed
  show ?thesis using f v s by blast
qed

theorem later_root_wins_witness:
  "scan_roots ex_world ([''/in''] @ ''/usb1'' # [''/usb2'']) [] []
     = Some ([(''a'', ''/usb1/a.mkv''), (''B'', ''/in/B.MKV'')], [(''a'', ''/in/a.srt'')])
   \<and> find_videos ex_world ''/in'' = Some [''/in/a.mp4'', ''/in/B.MKV'']
   \<and> find_videos ex_world ''/usb1'' = Some [''/usb1/a.mkv'']
   \<and> with_stem ''a'' [''/usb1/a.mkv''] \<noteq> []
   \<and> find_videos ex_world ''/usb2'' = Some []
   \<and> map_of [(''a'', ''/usb1/a.mkv''), (''B'', ''/in/B.MKV'')] ''a'' = Some (last (with_stem ''a'' [''/usb1/a.mkv'']))
   \<and> last (with_stem ''a'' [''/usb1/a.mkv'']) = ''/usb1/a.mkv''"
proof -
  have p1: "with_stem ''a'' [''/usb1/a.mkv''] \<noteq> []"
    and p3: "last (with_stem ''a'' [''/usb1/a.mkv'']) = ''/usb1/a.mkv''"
    by (simp_all add: with_stem_def ex_stems)
  have p2: "\<forall>d'\<in>set [''/usb2'']. \<forall>vs'. find_videos ex_world d' = Some vs' \<longrightarrow> with_stem ''a'' vs' = []"
    by (simp add: ex_scans with_stem_def)
  from later_root_wins[OF ex_scan_roots, of "''a''"] obtain vs ss where
    f: "find_videos ex_world ''/usb1'' = Some vs"
    and v: "with_stem ''a'' vs \<noteq> []
          \<longrightarrow> (\<forall>d'\<in>set [''/usb2'']. \<forall>vs'. find_videos ex_world d' = Some vs' \<longrightarrow> with_stem ''a'' vs' = [])
          \<longrightarrow> map_of [(''a'', ''/usb1/a.mkv''), (''B'', ''/in/B.MKV'')] ''a'' = Some (last (with_stem ''a'' vs))
              \<and> last (with_stem ''a'' vs) \<in> set vs \<and> stem (last (with_stem ''a'' vs)) = ''a''"
    by blast
  from f have vs: "vs = [''/usb1/a.mkv'']" by (simp add: ex_scans)
  from v p1 p2 have "map_of [(''a'', ''/usb1/a.mkv''), (''B'', ''/in/B.MKV'')] ''a''
      = Some (last (with_stem ''a'' [''/usb1/a.mkv'']))"
    unfolding vs by blast
  then show ?thesis using ex_scan_roots ex_scans(1,3,5) p1 p3 by blast
qed

subsection \<open>Outputs written next to their inputs\<close>

text \<open>
  Claim C10. The scanner has no exclusion for outputs. Let \<open>e\<close> be a name that the scanner
  accepts in a root \<open>d\<close> (no dot in front, a video extension), and \<open>name\<close> the name of the
  output file of \<open>process\<close> for the video \<open>join d e\<close>: it is the stem, \<open>_clean\<close> and the
  extension. Whenever a later listing of \<open>d\<close> has \<open>name\<close> as a regular file, \<open>find_videos\<close>
  yields it, and its stem is the input's stem followed by \<open>_clean\<close>. With
  \<open>write_next_to_input\<close> and a root written without a trailing separator, the output file
  is that child of \<open>d\<close>.
\<close>

theorem outputs_are_candidates:
  assumes input: "CHR ''/'' \<notin> set e" "\<not> startswith e ''.''" "endswith_any (lower e) VIDEO_EXTS"
    and name: "name = basename (out_file_of cfg (join d e))"
    and later: "isdir w' d" "os_listdir w' d = Some es'" "name \<in> set es'" "isfile w' (join d name)"
  shows "name = stem (join d e) @ ''_clean'' @ snd (splitext (join d e))
    \<and> (\<exists>vs. find_videos w' d = Some vs \<and> join d name \<in> set vs)
    \<and> stem (join d name) = stem (join d e) @ ''_clean''
    \<and> (write_next_to_input cfg \<longrightarrow> d \<noteq> [] \<longrightarrow> last d \<noteq> CHR ''/'' \<longrightarrow>
          out_file_of cfg (join d e) = join d name)"
proof -
  from input(3) obtain x where x: "x \<in> set VIDEO_EXTS" "endswith (lower e) x"
    by (auto simp: endswith_any_def list_ex_iff)
  from VIDEO_EXTS_plain[OF x(1)] input(1,2) x(2)
  obtain a t u where s: "e = (a # t) @ CHR ''.'' # u" "a \<noteq> CHR ''.''" "CHR ''.'' \<notin> set u"
    "lower (CHR ''.'' # u) = x" "splitext e = (a # t, CHR ''.'' # u)"
    by (rule accepted_name_split)
  have be: "basename (join d e) = e" using input(1) by (rule basename_join)
  have st: "stem (join d e) = a # t" by (simp add: stem_def be s(5))
  have ex: "snd (splitext (join d e)) = CHR ''.'' # u"
    using splitext_basename(1)[of "join d e"] by (simp add: be s(5))
  have n: "name = (a # t @ ''_clean'') @ CHR ''.'' # u"
    unfolding name out_file_basename st ex by simp
  have nsep: "CHR ''/'' \<notin> set name" using input(1) s(1) unfolding n by auto
  have nd: "\<not> startswith name ''.''" using s(2) unfolding n by (simp add: startswith_def)
  have "lower name = lower (a # t @ ''_clean'') @ x"
    unfolding n lower_append s(4) ..
  then have "endswith (lower name) x" unfolding endswith_iff by blast
  then have m: "endswith_any (lower name) VIDEO_EXTS"
    using x(1) by (auto simp: endswith_any_def list_ex_iff)
  have mem: "join d name \<in> set (find_videos_loop w' d es')"
    using later(3) nd later(4) m by (rule find_videos_loop_member)
  have f: "\<exists>vs. find_videos w' d = Some vs \<and> join d name \<in> set vs"
    using mem later(1,2) by (simp add: find_videos_def)
  have "splitext ((a # t @ ''_clean'') @ CHR ''.'' # u) = (a # t @ ''_clean'', CHR ''.'' # u)"
    using nsep s(3) s(2) unfolding n by (intro splitext_name) auto
  then have sn: "stem (join d name) = a # t @ ''_clean''"
    using basename_join[OF nsep, of d] by (simp add: stem_def n)
  have o: "out_file_of cfg (join d e) = join d name"
    if "write_next_to_input cfg" "d \<noteq> []" "last d \<noteq> CHR ''/''"
  proof -
    have "\<not> startswith e ''/''" using input(1) by (rule no_sep_not_startswith)
    then have "join d e = d @ CHR ''/'' # e" using that by (simp add: join_def endswith_slash)
    then have "dirname (join d e) = d" using dirname_dir_name[OF input(1) that(2,3)] by simp
    then show ?thesis
      using that(1) unfolding n[symmetric, unfolded st[symmetric] ex[symmetric]]
      by (simp add: out_file_of_def Let_def stem_def n st ex be s(5))
  qed
  show ?thesis using n f sn o unfolding st ex by auto
qed

theorem outputs_are_candidates_witness:
  "CHR ''/'' \<notin> set ''a.mp4'' \<and> \<not> startswith ''a.mp4'' ''.''
   \<and> endswith_any (lower ''a.mp4'') VIDEO_EXTS
   \<and> ''a_clean.mp4'' = basename (out_file_of ex_cfg (join ''/in'' ''a.mp4''))
   \<and> isdir ex_world_after ''/in''
   \<and> os_listdir ex_world_after ''/in''
        = Some [''a.mp4'', ''a.srt'', ''.b.mp4'', ''notes.txt'', ''clips.mp4'', ''B.MKV'', ''a_clean.mp4'']
   \<and> isfile ex_world_after (join ''/in'' ''a_clean.mp4'')
   \<and> (\<exists>vs. find_videos ex_world_after ''/in'' = Some vs \<and> ''/in/a_clean.mp4'' \<in> set vs)
   \<and> stem ''/in/a_clean.mp4'' = ''a_clean''
   \<and> out_file_of ex_cfg ''/in/a.mp4'' = ''/in/a_clean.mp4''"
proof -
  have h1: "CHR ''/'' \<notin> set ''a.mp4''" and h2: "\<not> startswith ''a.mp4'' ''.''"
    and h3: "endswith_any (lower ''a.mp4'') VIDEO_EXTS"
    by (simp_all add: path_eval)
  have h4: "''a_clean.mp4'' = basename (out_file_of ex_cfg (join ''/in'' ''a.mp4''))"
    by (simp add: out_file_of_def ex_cfg_def path_eval)
  have h5: "isdir ex_world_after ''/in''"
    and h6: "os_listdir ex_world_after ''/in''
        = Some [''a.mp4'', ''a.srt'', ''.b.mp4'', ''notes.txt'', ''clips.mp4'', ''B.MKV'', ''a_clean.mp4'']"
    and h7: "''a_clean.mp4'' \<in> set [''a.mp4'', ''a.srt'', ''.b.mp4'', ''notes.txt'', ''clips.mp4'', ''B.MKV'', ''a_clean.mp4'']"
    and h8: "isfile ex_world_after (join ''/in'' ''a_clean.mp4'')"
    by (simp_all add: ex_world_after_def ex_world_def path_eval)
  have j: "join ''/in'' ''a.mp4'' = ''/in/a.mp4''" "join ''/in'' ''a_clean.mp4'' = ''/in/a_clean.mp4''"
    "stem ''/in/a.mp4'' = ''a''" "write_next_to_input ex_cfg" "last ''/in'' \<noteq> CHR ''/''"
    by (simp_all add: path_eval ex_cfg_def)
  note t = outputs_are_candidates[OF h1 h2 h3 h4 h5 h6 h7 h8]
  have c1: "\<exists>vs. find_videos ex_world_after ''/in'' = Some vs \<and> ''/in/a_clean.mp4'' \<in> set vs"
    using t[THEN conjunct2, THEN conjunct1] unfolding j .
  have c2: "stem ''/in/a_clean.mp4'' = ''a_clean''"
    using t[THEN conjunct2, THEN conjunct2, THEN conjunct1] unfolding j by simp
  have c3: "out_file_of ex_cfg ''/in/a.mp4'' = ''/in/a_clean.mp4''"
    using t[THEN conjunct2, THEN conjunct2, THEN conjunct2] j(4,5) unfolding j(1,2) by simp
  show ?thesis
    using h1 h2 h3 h4 h5 h6 h8 c1 c2 c3 by blast
qed

subsection \<open>Persisting the store\<close>

lemma apply_op_elsewhere:
  "touches_only p op \<Longrightarrow> q \<noteq> p \<Longrightarrow>
   os_stat (apply_op op w) q = os_stat w q \<and> file_text (apply_op op w) q = file_text w q"
  by (cases op) (simp_all add: Let_def)

lemma run_ops_elsewhere:
  "\<forall>op\<in>set ops. touches_only p op \<Longrightarrow> q \<noteq> p \<Longrightarrow>
   os_stat (run_ops ops w) q = os_stat w q \<and> file_text (run_ops ops w) q = file_text w q"
proof (induction ops arbitrary: w)
  case Nil
  then show ?case by simp
next
  case (Cons op ops)
  then have "os_stat (run_ops ops (apply_op op w)) q = os_stat (apply_op op w) q
      \<and> file_text (run_ops ops (apply_op op w)) q = file_text (apply_op op w) q"
    by simp
  moreover have "os_stat (apply_op op w) q = os_stat w q \<and> file_text (apply_op op w) q = file_text w q"
    using Cons.prems by (intro apply_op_elsewhere) simp_all
  ultimately show ?case by simp
qed

lemma run_ops_append: "run_ops (xs @ ys) w = run_ops ys (run_ops xs w)"
  by (induction xs arbitrary: w) simp_all

lemma run_writes:
  "file_text w p = Some old \<Longrightarrow>
   file_text (run_ops (map (\<lambda>c. Write p [c]) t) w) p = Some (old @ t)"
proof (induction t arbitrary: w old)
  case Nil
  then show ?case by simp
next
  case (Cons c t)
  have "file_text (apply_op (Write p [c]) w) p = Some (old @ [c])"
    using Cons.prems by (simp add: Let_def)
  from Cons.IH[OF this] show ?case by simp
qed

lemma take_save_db_ops:
  "k < length (save_db_ops e cfg d) \<Longrightarrow>
   \<forall>op\<in>set (take k (save_db_ops e cfg d)). touches_only (processed_db cfg @ ''.tmp'') op"
proof -
  assume k: "k < length (save_db_ops e cfg d)"
  define pre where "pre = OpenW (processed_db cfg @ ''.tmp'')
      # map (\<lambda>c. Write (processed_db cfg @ ''.tmp'') [c]) (json_dumps e d)"
  have ops: "save_db_ops e cfg d = pre @ [Replace (processed_db cfg @ ''.tmp'') (processed_db cfg)]"
    by (simp add: save_db_ops_def pre_def Let_def)
  have "k \<le> length pre" using k unfolding ops by simp
  then have "take k (save_db_ops e cfg d) = take k pre" unfolding ops by simp
  moreover have "\<forall>op\<in>set pre. touches_only (processed_db cfg @ ''.tmp'') op"
    by (auto simp: pre_def)
  ultimately show ?thesis by (auto dest: in_set_takeD)
qed

lemma load_db_cong:
  "os_stat w' (processed_db cfg) = os_stat w (processed_db cfg) \<Longrightarrow>
   file_text w' (processed_db cfg) = file_text w (processed_db cfg) \<Longrightarrow>
   load_db e cfg w' = load_db e cfg w"
  by (simp add: load_db_def isfile_def)

lemma save_db_ops_complete:
  "file_text (run_ops (save_db_ops e cfg d) w) (processed_db cfg) = Some (json_dumps e d)
   \<and> file_text (run_ops (save_db_ops e cfg d) w) (processed_db cfg @ ''.tmp'') = None"
proof -
  define tmp where "tmp = processed_db cfg @ ''.tmp''"
  have ne: "tmp \<noteq> processed_db cfg" by (simp add: tmp_def)
  have o: "file_text (apply_op (OpenW tmp) w) tmp = Some []" by simp
  have wr: "file_text (run_ops (map (\<lambda>c. Write tmp [c]) (json_dumps e d)) (apply_op (OpenW tmp) w)) tmp
      = Some (json_dumps e d)"
    using run_writes[OF o, of "json_dumps e d"] by simp
  have ops: "save_db_ops e cfg d
      = (OpenW tmp # map (\<lambda>c. Write tmp [c]) (json_dumps e d)) @ [Replace tmp (processed_db cfg)]"
    by (simp add: save_db_ops_def tmp_def Let_def)
  show ?thesis
    unfolding ops run_ops_append tmp_def[symmetric] using wr ne by simp
qed

text \<open>
  Claim C5. The operations of one \<open>save_db\<close> end with the replacement of the store file
  by the temporary file. After any number of them short of that last one, the store file
  has the text and the status it had before, and \<open>load_db\<close> reads the same store from
  it. After all of them the store file holds the whole JSON text of the store. \<open>save_db\<close>
  itself performs all of them, or those before the first that raises. The store that is
  saved after a mutation is the whole store with the new record.
\<close>

theorem save_db_crash_safe:
  "(\<forall>k<length (save_db_ops e cfg d).
      file_text (run_ops (take k (save_db_ops e cfg d)) w) (processed_db cfg)
        = file_text w (processed_db cfg)
      \<and> os_stat (run_ops (take k (save_db_ops e cfg d)) w) (processed_db cfg)
        = os_stat w (processed_db cfg)
      \<and> load_db e cfg (run_ops (take k (save_db_ops e cfg d)) w) = load_db e cfg w)
   \<and> last (save_db_ops e cfg d) = Replace (processed_db cfg @ ''.tmp'') (processed_db cfg)
   \<and> file_text (run_ops (save_db_ops e cfg d) w) (processed_db cfg) = Some (json_dumps e d)
   \<and> (save_fault e (wld s) = None \<longrightarrow>
        wld (save_db e cfg d s) = run_ops (save_db_ops e cfg d) (wld s))
   \<and> (\<forall>i. save_fault e (wld s) = Some i \<longrightarrow>
        wld (save_db e cfg d s) = run_ops (take i (save_db_ops e cfg d)) (wld s))
   \<and> commit e cfg key vstat sstat s
        = save_db e cfg
            ((db s)(key \<mapsto> \<lparr>video = vstat, subs = sstat, processed_at = py_int (clock (wld s))\<rparr>))
            (s\<lparr>db := (db s)(key \<mapsto>
                 \<lparr>video = vstat, subs = sstat, processed_at = py_int (clock (wld s))\<rparr>)\<rparr>)"
proof -
  have a: "file_text (run_ops (take k (save_db_ops e cfg d)) w) (processed_db cfg)
        = file_text w (processed_db cfg)
      \<and> os_stat (run_ops (take k (save_db_ops e cfg d)) w) (processed_db cfg)
        = os_stat w (processed_db cfg)
      \<and> load_db e cfg (run_ops (take k (save_db_ops e cfg d)) w) = load_db e cfg w"
    if k: "k < length (save_db_ops e cfg d)" for k
  proof -
    have ne: "processed_db cfg \<noteq> processed_db cfg @ ''.tmp''" by simp
    note u = run_ops_elsewhere[OF take_save_db_ops[OF k] ne, of w]
    from u have "load_db e cfg (run_ops (take k (save_db_ops e cfg d)) w) = load_db e cfg w"
      by (intro load_db_cong) simp_all
    with u show ?thesis by simp
  qed
  have l: "last (save_db_ops e cfg d) = Replace (processed_db cfg @ ''.tmp'') (processed_db cfg)"
    by (simp add: save_db_ops_def Let_def)
  have f: "wld (save_db e cfg d s) = run_ops (save_db_ops e cfg d) (wld s)"
    if "save_fault e (wld s) = None"
    using that by (simp add: save_db_def Let_def)
  have g: "wld (save_db e cfg d s) = run_ops (take i (save_db_ops e cfg d)) (wld s)"
    if "save_fault e (wld s) = Some i" for i
    using that by (simp add: save_db_def Let_def min_def)
  note c = save_db_ops_complete[of e cfg d w, THEN conjunct1]
  have cm: "commit e cfg key vstat sstat s
        = save_db e cfg
            ((db s)(key \<mapsto> \<lparr>video = vstat, subs = sstat, processed_at = py_int (clock (wld s))\<rparr>))
            (s\<lparr>db := (db s)(key \<mapsto>
                 \<lparr>video = vstat, subs = sstat, processed_at = py_int (clock (wld s))\<rparr>)\<rparr>)"
    by (simp add: commit_def Let_def)
  show ?thesis
  proof (intro conjI allI impI)
    fix k assume "k < length (save_db_ops e cfg d)"
    from a[OF this]
    show "file_text (run_ops (take k (save_db_ops e cfg d)) w) (processed_db cfg)
        = file_text w (processed_db cfg)"
      and "os_stat (run_ops (take k (save_db_ops e cfg d)) w) (processed_db cfg)
        = os_stat w (processed_db cfg)"
      and "load_db e cfg (run_ops (take k (save_db_ops e cfg d)) w) = load_db e cfg w"
      by simp_all
  qed (rule l c f g cm, assumption?)+
qed

theorem save_db_crash_safe_witness:
  "(3::nat) < length (save_db_ops ex_env ex_cfg Map.empty)
   \<and> file_text (run_ops (take 3 (save_db_ops ex_env ex_cfg Map.empty)) ex_world) ''/data/db.json''
        = Some ''{}''
   \<and> file_text (run_ops (take 3 (save_db_ops ex_env ex_cfg Map.empty)) ex_world) ''/data/db.json.tmp''
        = Some ''{.''
   \<and> load_db ex_env ex_cfg (run_ops (take 3 (save_db_ops ex_env ex_cfg Map.empty)) ex_world)
        = load_db ex_env ex_cfg ex_world
   \<and> file_text (run_ops (save_db_ops ex_env ex_cfg Map.empty) ex_world) ''/data/db.json''
        = Some ''{...}''
   \<and> save_fault ex_env (wld ex_state) = None
   \<and> wld (save_db ex_env ex_cfg Map.empty ex_state)
        = run_ops (save_db_ops ex_env ex_cfg Map.empty) (wld ex_state)"
proof -
  have ops: "save_db_ops ex_env ex_cfg Map.empty =
      [OpenW ''/data/db.json.tmp'', Write ''/data/db.json.tmp'' ''{'', Write ''/data/db.json.tmp'' ''.'',
       Write ''/data/db.json.tmp'' ''.'', Write ''/data/db.json.tmp'' ''.'', Write ''/data/db.json.tmp'' ''}'',
       Replace ''/data/db.json.tmp'' ''/data/db.json'']"
    by (simp add: save_db_ops_def ex_env_def ex_cfg_def Let_def)
  have k: "(3::nat) < length (save_db_ops ex_env ex_cfg Map.empty)" unfolding ops by simp
  have p: "processed_db ex_cfg = ''/data/db.json''" "json_dumps ex_env Map.empty = ''{...}''"
    "file_text ex_world ''/data/db.json'' = Some ''{}''"
    "save_fault ex_env (wld ex_state) = None"
    by (simp_all add: ex_cfg_def ex_env_def ex_world_def)
  have t: "file_text (run_ops (take 3 (save_db_ops ex_env ex_cfg Map.empty)) ex_world) ''/data/db.json.tmp''
        = Some ''{.''"
    unfolding ops by (simp add: ex_world_def Let_def)
  note th = save_db_crash_safe[of ex_env ex_cfg Map.empty ex_world ex_state]
  from th k have
    "file_text (run_ops (take 3 (save_db_ops ex_env ex_cfg Map.empty)) ex_world) (processed_db ex_cfg)
        = file_text ex_world (processed_db ex_cfg)"
    "load_db ex_env ex_cfg (run_ops (take 3 (save_db_ops ex_env ex_cfg Map.empty)) ex_world)
        = load_db ex_env ex_cfg ex_world"
    "file_text (run_ops (save_db_ops ex_env ex_cfg Map.empty) ex_world) (processed_db ex_cfg)
        = Some (json_dumps ex_env Map.empty)"
    "save_fault ex_env (wld ex_state) = None \<longrightarrow>
        wld (save_db ex_env ex_cfg Map.empty ex_state)
          = run_ops (save_db_ops ex_env ex_cfg Map.empty) (wld ex_state)"
    by blast+
  then show ?thesis using k t p by simp
qed

subsection \<open>Effects of one candidate\<close>

lemma move_subtitle_effect:
  "db (move_subtitle e cfg srt s) = db s
   \<and> (\<exists>rest. trace (move_subtitle e cfg srt s) = trace s @ rest \<and> (\<forall>ev\<in>set rest. is_relocation ev))"
  by (cases srt) (auto simp: move_subtitle_def Let_def split: prod.splits)

lemma relocate_effect:
  assumes "relocate e cfg vp srt s = (r, s')"
  shows "db s' = db s \<and> (r = Inr True \<or> r = Inl OSError)
    \<and> (\<exists>rest. trace s' = trace s @ rest \<and> (\<forall>ev\<in>set rest. is_relocation ev))"
proof -
  obtain made w1 where m: "os_makedirs e (processed_dir cfg) (wld s) = (made, w1)"
    by (cases "os_makedirs e (processed_dir cfg) (wld s)")
  define s1 where "s1 = s\<lparr>wld := w1, trace := trace s @ [MakeDirs (processed_dir cfg)]\<rparr>"
  show ?thesis
  proof (cases made)
    case False
    then have "r = Inl OSError" "s' = s1"
      using assms m by (simp_all add: relocate_def Let_def s1_def)
    then show ?thesis by (simp add: s1_def)
  next
    case True
    obtain moved w2 where mv: "shutil_move e vp (join (processed_dir cfg) (basename vp)) (wld s1) = (moved, w2)"
      by (cases "shutil_move e vp (join (processed_dir cfg) (basename vp)) (wld s1)")
    define s2 where "s2 = s1\<lparr>wld := w2, trace := trace s1 @ [Move vp (join (processed_dir cfg) (basename vp))]\<rparr>"
    have r: "r = Inr True" and s': "s' = move_subtitle e cfg srt s2"
      using assms m True mv by (simp_all add: relocate_def Let_def s1_def s2_def)
    from move_subtitle_effect[of e cfg srt s2] obtain rest where
      rest: "db s' = db s2" "trace s' = trace s2 @ rest" "\<forall>ev\<in>set rest. is_relocation ev"
      unfolding s' by blast
    have "trace s' = trace s @ (MakeDirs (processed_dir cfg) # Move vp (join (processed_dir cfg) (basename vp)) # rest)"
      using rest(2) by (simp add: s2_def s1_def)
    moreover have "\<forall>ev\<in>set (MakeDirs (processed_dir cfg) # Move vp (join (processed_dir cfg) (basename vp)) # rest). is_relocation ev"
      using rest(3) by simp
    moreover have "db s' = db s" using rest(1) by (simp add: s2_def s1_def)
    ultimately show ?thesis using r by blast
  qed
qed

lemma process_effect:
  assumes "process e cfg vp srt s = (r, s')"
    and "subprocess_run e (build_cmd cfg (wld s) vp srt) (wld s) = (outcome, w1)"
  shows "db s' = db s"
    and "\<exists>rest. trace s' = trace s @ Run (build_cmd cfg (wld s) vp srt) outcome # rest
           \<and> (\<forall>ev\<in>set rest. is_relocation ev)
           \<and> (outcome \<noteq> Exited 0 \<longrightarrow> rest = [])"
    and "r = Inr True \<longrightarrow> outcome = Exited 0"
    and "r = Inr False \<longleftrightarrow> (\<exists>status. outcome = Exited status \<and> status \<noteq> 0)"
    and "outcome = SpawnFailed \<longrightarrow> r = Inl OSError"
proof -
  define cmd where "cmd = build_cmd cfg (wld s) vp srt"
  define s1 where "s1 = s\<lparr>wld := w1, trace := trace s @ [Run cmd outcome]\<rparr>"
  have p: "process e cfg vp srt s =
     (case outcome of
        SpawnFailed \<Rightarrow> (Inl OSError, s1)
      | Exited status \<Rightarrow>
          if status \<noteq> 0 then (Inr False, s1)
          else if \<not> preserve_input cfg then relocate e cfg vp srt s1
          else (Inr True, s1))"
    using assms(2) by (simp add: process_def Let_def cmd_def s1_def split: run_outcome.splits)
  have all: "db s' = db s
    \<and> (\<exists>rest. trace s' = trace s @ Run cmd outcome # rest
           \<and> (\<forall>ev\<in>set rest. is_relocation ev)
           \<and> (outcome \<noteq> Exited 0 \<longrightarrow> rest = []))
    \<and> (r = Inr True \<longrightarrow> outcome = Exited 0)
    \<and> (r = Inr False \<longleftrightarrow> (\<exists>status. outcome = Exited status \<and> status \<noteq> 0))
    \<and> (outcome = SpawnFailed \<longrightarrow> r = Inl OSError)"
  proof (cases outcome)
    case SpawnFailed
    then have "r = Inl OSError" "s' = s1" using assms(1) p by simp_all
    then show ?thesis using SpawnFailed by (simp add: s1_def)
  next
    case (Exited status)
    show ?thesis
    proof (cases "status \<noteq> 0")
      case True
      then have "r = Inr False" "s' = s1" using assms(1) p Exited by simp_all
      then show ?thesis using Exited True by (simp add: s1_def)
    next
      case z: False
      show ?thesis
      proof (cases "preserve_input cfg")
        case True
        then have "r = Inr True" "s' = s1" using assms(1) p Exited z by simp_all
        then show ?thesis using Exited z by (simp add: s1_def)
      next
        case False
        then have "relocate e cfg vp srt s1 = (r, s')" using assms(1) p Exited z by simp
        from relocate_effect[OF this] obtain rest where
          "db s' = db s1" "r = Inr True \<or> r = Inl OSError"
          "trace s' = trace s1 @ rest" "\<forall>ev\<in>set rest. is_relocation ev"
          by blast
        then show ?thesis using Exited z by (auto simp: s1_def)
      qed
    qed
  qed
  show "db s' = db s"
    and "\<exists>rest. trace s' = trace s @ Run (build_cmd cfg (wld s) vp srt) outcome # rest
           \<and> (\<forall>ev\<in>set rest. is_relocation ev)
           \<and> (outcome \<noteq> Exited 0 \<longrightarrow> rest = [])"
    and "r = Inr True \<longrightarrow> outcome = Exited 0"
    and "r = Inr False \<longleftrightarrow> (\<exists>status. outcome = Exited status \<and> status \<noteq> 0)"
    and "outcome = SpawnFailed \<longrightarrow> r = Inl OSError"
    using all unfolding cmd_def by blast+
qed

lemma commit_effect:
  "db (commit e cfg key vstat sstat s)
     = (db s)(key \<mapsto> \<lparr>video = vstat, subs = sstat, processed_at = py_int (clock (wld s))\<rparr>)"
  "trace (commit e cfg key vstat sstat s) = trace s @ [SaveDb]"
  by (simp_all add: commit_def save_db_def Let_def)

lemma detect_skip:
  assumes "current_fingerprints e vp srt (wld s) = (key, vstat, sstat)"
    and "\<not> needs_processing (db s) key vstat sstat"
  shows "detect_and_process e cfg vp srt s = (None, s)"
  using assms by (simp add: detect_and_process_def)

lemma detect_effect:
  assumes d: "detect_and_process e cfg vp srt s = (r, s')"
    and f: "current_fingerprints e vp srt (wld s) = (key, vstat, sstat)"
    and n: "needs_processing (db s) key vstat sstat"
    and o: "subprocess_run e (build_cmd cfg (wld s) vp srt) (wld s) = (outcome, w1)"
  shows "\<exists>rest. trace s' = trace s @ Run (build_cmd cfg (wld s) vp srt) outcome # rest
      \<and> (\<forall>ev\<in>set rest. is_relocation ev \<or> ev = SaveDb)
      \<and> (outcome \<noteq> Exited 0 \<longrightarrow> rest = [] \<and> db s' = db s)
      \<and> ((\<exists>status. outcome = Exited status \<and> status \<noteq> 0) \<longrightarrow> r = None)
      \<and> (r \<noteq> None \<longrightarrow> db s' = db s)
      \<and> (db s' = db s \<and> SaveDb \<notin> set rest
           \<or> (\<exists>t. db s' = (db s)(key \<mapsto> \<lparr>video = vstat, subs = sstat, processed_at = t\<rparr>))
              \<and> outcome = Exited 0 \<and> r = None)"
proof -
  obtain pr s1 where p: "process e cfg vp srt s = (pr, s1)"
    by (cases "process e cfg vp srt s")
  note pe = process_effect[OF p o]
  from pe(2) obtain rest where rest: "trace s1 = trace s @ Run (build_cmd cfg (wld s) vp srt) outcome # rest"
    "\<forall>ev\<in>set rest. is_relocation ev" "outcome \<noteq> Exited 0 \<longrightarrow> rest = []"
    by blast
  have nosave: "SaveDb \<notin> set rest" using rest(2) by auto
  have dd: "detect_and_process e cfg vp srt s =
      (case pr of Inl x \<Rightarrow> (Some x, s1)
       | Inr ok \<Rightarrow> if ok then (None, commit e cfg key vstat sstat s1) else (None, s1))"
    using f n p by (simp add: detect_and_process_def split: sum.splits)
  show ?thesis
  proof (cases pr)
    case (Inl x)
    then have "r = Some x" "s' = s1" using d dd by simp_all
    moreover have "\<not> (\<exists>status. outcome = Exited status \<and> status \<noteq> 0)"
      using pe(4) Inl by simp
    ultimately show ?thesis using rest nosave pe(1) by auto
  next
    case (Inr ok)
    show ?thesis
    proof (cases ok)
      case False
      then have "r = None" "s' = s1" using d dd Inr by simp_all
      then show ?thesis using rest nosave pe(1) by auto
    next
      case True
      then have r: "r = None" and s': "s' = commit e cfg key vstat sstat s1"
        using d dd Inr by simp_all
      have ox: "outcome = Exited 0" using pe(3) Inr True by simp
      have t: "trace s' = trace s @ Run (build_cmd cfg (wld s) vp srt) outcome # (rest @ [SaveDb])"
        unfolding s' commit_effect rest(1) by simp
      have db': "db s' = (db s)(key \<mapsto> \<lparr>video = vstat, subs = sstat, processed_at = py_int (clock (wld s1))\<rparr>)"
        unfolding s' commit_effect pe(1) ..
      have "\<forall>ev\<in>set (rest @ [SaveDb]). is_relocation ev \<or> ev = SaveDb" using rest(2) by auto
      then show ?thesis using t db' ox r by blast
    qed
  qed
qed

lemma candidate_unfold:
  "candidate e cfg subs_map (base, vpath) s =
     (case getsize (wld s) vpath of
        None \<Rightarrow> (None, s)
      | Some s1 \<Rightarrow>
          (case getsize (wld (after_wait e s)) vpath of
             None \<Rightarrow> (None, after_wait e s)
           | Some s2 \<Rightarrow>
               if s1 \<noteq> s2 then (None, after_wait e s)
               else detect_and_process e cfg vpath (map_of subs_map base) (after_wait e s)))"
  by (simp add: candidate_def time_sleep_def sleep_error_def seconds_def after_wait_def Let_def
      split: option.splits)

lemma after_wait_simps:
  "wld (after_wait e s) = elapse e 1 (wld s)"
  "trace (after_wait e s) = trace s @ [Sleep 1]"
  "db (after_wait e s) = db s"
  by (simp_all add: after_wait_def)

lemma new_events_simps:
  "new_events s s = []"
  "new_events s (after_wait e s) = [Sleep 1]"
  "trace s' = trace s @ evs \<Longrightarrow> new_events s s' = evs"
  by (simp_all add: new_events_def after_wait_def)

lemma take3_build_cmd: "take 3 (build_cmd cfg w vp srt) = [''cleanvid'', ''-i'', vp]"
  by (simp add: build_cmd_def)

text \<open>What one candidate can do, in one statement.\<close>

lemma candidate_cases:
  assumes c: "candidate e cfg sm (base, vpath) s = (r, s')"
    and f: "current_fingerprints e vpath (map_of sm base) (wld (after_wait e s)) = (key, vstat, sstat)"
  shows "(r = None \<and> (s' = s \<or> s' = after_wait e s)
           \<and> \<not> (\<exists>a. getsize (wld s) vpath = Some a \<and> getsize (wld (after_wait e s)) vpath = Some a
                    \<and> needs_processing (db s) key vstat sstat))
    \<or> ((\<exists>a. getsize (wld s) vpath = Some a \<and> getsize (wld (after_wait e s)) vpath = Some a)
        \<and> needs_processing (db s) key vstat sstat
        \<and> (\<exists>cmd outcome rest. take 3 cmd = [''cleanvid'', ''-i'', vpath]
             \<and> trace s' = trace s @ Sleep 1 # Run cmd outcome # rest
             \<and> (\<forall>ev\<in>set rest. is_relocation ev \<or> ev = SaveDb)
             \<and> (outcome \<noteq> Exited 0 \<longrightarrow> rest = [] \<and> db s' = db s)
             \<and> ((\<exists>status. outcome = Exited status \<and> status \<noteq> 0) \<longrightarrow> r = None)
             \<and> (r \<noteq> None \<longrightarrow> db s' = db s)
             \<and> (db s' = db s \<and> SaveDb \<notin> set rest
                 \<or> (\<exists>t. db s' = (db s)(key \<mapsto> \<lparr>video = vstat, subs = sstat, processed_at = t\<rparr>))
                    \<and> outcome = Exited 0 \<and> r = None)))"
proof -
  note u = candidate_unfold[of e cfg sm base vpath s]
  show ?thesis
  proof (cases "getsize (wld s) vpath")
    case None
    then have "r = None" "s' = s" using c u by simp_all
    then show ?thesis using None by simp
  next
    case (Some a)
    show ?thesis
    proof (cases "getsize (wld (after_wait e s)) vpath")
      case None
      then have "r = None" "s' = after_wait e s" using c u Some by simp_all
      then show ?thesis using None by simp
    next
      case b: (Some b)
      show ?thesis
      proof (cases "a = b")
        case False
        then have "r = None" "s' = after_wait e s" using c u Some b by simp_all
        then show ?thesis using Some b False by simp
      next
        case True
        then have d: "detect_and_process e cfg vpath (map_of sm base) (after_wait e s) = (r, s')"
          using c u Some b by simp
        show ?thesis
        proof (cases "needs_processing (db s) key vstat sstat")
          case False
          then have "\<not> needs_processing (db (after_wait e s)) key vstat sstat"
            by (simp add: after_wait_simps)
          from detect_skip[OF f this, of cfg] have "r = None" "s' = after_wait e s"
            using d by simp_all
          then show ?thesis using False by simp
        next
          case n: True
          then have n': "needs_processing (db (after_wait e s)) key vstat sstat"
            by (simp add: after_wait_simps)
          obtain outcome w1 where o: "subprocess_run e
              (build_cmd cfg (wld (after_wait e s)) vpath (map_of sm base)) (wld (after_wait e s)) = (outcome, w1)"
            by (cases "subprocess_run e
              (build_cmd cfg (wld (after_wait e s)) vpath (map_of sm base)) (wld (after_wait e s))")
          define cmd where "cmd = build_cmd cfg (wld (after_wait e s)) vpath (map_of sm base)"
          from detect_effect[OF d f n' o] obtain rest where
            rest: "trace s' = trace (after_wait e s) @ Run cmd outcome # rest"
              "\<forall>ev\<in>set rest. is_relocation ev \<or> ev = SaveDb"
              "outcome \<noteq> Exited 0 \<longrightarrow> rest = [] \<and> db s' = db (after_wait e s)"
              "(\<exists>status. outcome = Exited status \<and> status \<noteq> 0) \<longrightarrow> r = None"
              "r \<noteq> None \<longrightarrow> db s' = db (after_wait e s)"
              "db s' = db (after_wait e s) \<and> SaveDb \<notin> set rest
                 \<or> (\<exists>t. db s' = (db (after_wait e s))(key \<mapsto> \<lparr>video = vstat, subs = sstat, processed_at = t\<rparr>))
                    \<and> outcome = Exited 0 \<and> r = None"
            unfolding cmd_def by blast
          have ne: "trace s' = trace s @ Sleep 1 # Run cmd outcome # rest"
            using rest(1) by (simp add: after_wait_simps)
          have t3: "take 3 cmd = [''cleanvid'', ''-i'', vpath]"
            unfolding cmd_def by (rule take3_build_cmd)
          have "\<exists>cmd outcome rest. take 3 cmd = [''cleanvid'', ''-i'', vpath]
             \<and> trace s' = trace s @ Sleep 1 # Run cmd outcome # rest
             \<and> (\<forall>ev\<in>set rest. is_relocation ev \<or> ev = SaveDb)
             \<and> (outcome \<noteq> Exited 0 \<longrightarrow> rest = [] \<and> db s' = db s)
             \<and> ((\<exists>status. outcome = Exited status \<and> status \<noteq> 0) \<longrightarrow> r = None)
             \<and> (r \<noteq> None \<longrightarrow> db s' = db s)
             \<and> (db s' = db s \<and> SaveDb \<notin> set rest
                 \<or> (\<exists>t. db s' = (db s)(key \<mapsto> \<lparr>video = vstat, subs = sstat, processed_at = t\<rparr>))
                    \<and> outcome = Exited 0 \<and> r = None)"
            using t3 ne rest(2-6) unfolding after_wait_simps by blast
          then show ?thesis using Some b True n by blast
        qed
      qed
    qed
  qed
qed

subsection \<open>Stability gate\<close>

text \<open>
  Claim C4. The candidate's size is sampled, the service waits one second (the world
  changes by \<open>elapse e 1\<close>), and the size is sampled again. When a sample raises
  \<open>OSError\<close> the candidate is skipped and nothing is raised; when the samples differ
  the candidate is skipped; only when they are equal does the candidate go on to change
  detection and processing. So a candidate for which the tool was run, or whose record
  changed, had two equal samples.
\<close>

theorem stability_gate:
  "wld (after_wait e s) = elapse e 1 (wld s) \<and> trace (after_wait e s) = trace s @ [Sleep 1]
   \<and> db (after_wait e s) = db s
   \<and> (getsize (wld s) vpath = None \<longrightarrow> candidate e cfg sm (base, vpath) s = (None, s))
   \<and> (\<forall>a. getsize (wld s) vpath = Some a \<longrightarrow> getsize (elapse e 1 (wld s)) vpath = None \<longrightarrow>
         candidate e cfg sm (base, vpath) s = (None, after_wait e s))
   \<and> (\<forall>a b. getsize (wld s) vpath = Some a \<longrightarrow> getsize (elapse e 1 (wld s)) vpath = Some b \<longrightarrow>
         a \<noteq> b \<longrightarrow> candidate e cfg sm (base, vpath) s = (None, after_wait e s))
   \<and> (\<forall>a. getsize (wld s) vpath = Some a \<longrightarrow> getsize (elapse e 1 (wld s)) vpath = Some a \<longrightarrow>
         candidate e cfg sm (base, vpath) s
           = detect_and_process e cfg vpath (map_of sm base) (after_wait e s))
   \<and> (\<forall>cmd outcome. Run cmd outcome \<in> set (new_events s (snd (candidate e cfg sm (base, vpath) s))) \<longrightarrow>
         (\<exists>a. getsize (wld s) vpath = Some a \<and> getsize (elapse e 1 (wld s)) vpath = Some a))
   \<and> (db (snd (candidate e cfg sm (base, vpath) s)) \<noteq> db s \<longrightarrow>
         (\<exists>a. getsize (wld s) vpath = Some a \<and> getsize (elapse e 1 (wld s)) vpath = Some a))"
proof -
  note u = candidate_unfold[of e cfg sm base vpath s, unfolded after_wait_simps(1)]
  obtain r s' where c: "candidate e cfg sm (base, vpath) s = (r, s')"
    by (cases "candidate e cfg sm (base, vpath) s")
  obtain key vstat sstat where
    f: "current_fingerprints e vpath (map_of sm base) (wld (after_wait e s)) = (key, vstat, sstat)"
    by (cases "current_fingerprints e vpath (map_of sm base) (wld (after_wait e s))")
  note cc = candidate_cases[OF c f, unfolded after_wait_simps(1)]
  have g1: "getsize (wld s) vpath = None \<longrightarrow> candidate e cfg sm (base, vpath) s = (None, s)"
    using u by simp
  have g2: "\<forall>a. getsize (wld s) vpath = Some a \<longrightarrow> getsize (elapse e 1 (wld s)) vpath = None \<longrightarrow>
         candidate e cfg sm (base, vpath) s = (None, after_wait e s)"
    using u by simp
  have g3: "\<forall>a b. getsize (wld s) vpath = Some a \<longrightarrow> getsize (elapse e 1 (wld s)) vpath = Some b \<longrightarrow>
         a \<noteq> b \<longrightarrow> candidate e cfg sm (base, vpath) s = (None, after_wait e s)"
    using u by simp
  have g4: "\<forall>a. getsize (wld s) vpath = Some a \<longrightarrow> getsize (elapse e 1 (wld s)) vpath = Some a \<longrightarrow>
         candidate e cfg sm (base, vpath) s
           = detect_and_process e cfg vpath (map_of sm base) (after_wait e s)"
    using u by simp
  have g5: "\<exists>a. getsize (wld s) vpath = Some a \<and> getsize (elapse e 1 (wld s)) vpath = Some a"
    if "Run cmd outcome \<in> set (new_events s s')" for cmd outcome
  proof (rule ccontr)
    assume "\<not> ?thesis"
    with cc have "s' = s \<or> s' = after_wait e s" by blast
    then have "new_events s s' = [] \<or> new_events s s' = [Sleep 1]"
      using new_events_simps(1,2) by metis
    with that show False by auto
  qed
  have g6: "\<exists>a. getsize (wld s) vpath = Some a \<and> getsize (elapse e 1 (wld s)) vpath = Some a"
    if "db s' \<noteq> db s"
  proof (rule ccontr)
    assume "\<not> ?thesis"
    with cc have "s' = s \<or> s' = after_wait e s" by blast
    then have "db s' = db s" using after_wait_simps(3) by metis
    with that show False by simp
  qed
  show ?thesis
    unfolding c snd_conv
    using after_wait_simps[of e s] g1 g2 g3 g4 g5 g6 unfolding c by blast
qed

theorem stability_gate_witness:
  "getsize (wld ex_state) ''/in/a.mp4'' = Some 10
   \<and> getsize (elapse ex_env_growing 1 (wld ex_state)) ''/in/a.mp4'' = Some 11
   \<and> candidate ex_env_growing ex_cfg [(''a'', ''/in/a.srt'')] (''a'', ''/in/a.mp4'') ex_state
        = (None, after_wait ex_env_growing ex_state)
   \<and> Run [''cleanvid'', ''-i'', ''/in/a.mp4'', ''-o'', ''/in/a_clean.mp4'', ''-w'', ''/data/swears.txt'',
             ''-s'', ''/in/a.srt''] (Exited 0)
        \<in> set (new_events ex_state
              (snd (candidate ex_env ex_cfg [(''a'', ''/in/a.srt'')] (''a'', ''/in/a.mp4'') ex_state)))
   \<and> (\<exists>a. getsize (wld ex_state) ''/in/a.mp4'' = Some a
          \<and> getsize (elapse ex_env 1 (wld ex_state)) ''/in/a.mp4'' = Some a)"
proof -
  note g = stability_gate[of ex_env_growing ex_state "''/in/a.mp4''" ex_cfg "[(''a'', ''/in/a.srt'')]" "''a''"]
  from g ex_sizes(1,2)
  have c: "candidate ex_env_growing ex_cfg [(''a'', ''/in/a.srt'')] (''a'', ''/in/a.mp4'') ex_state
        = (None, after_wait ex_env_growing ex_state)"
    by force
  have r: "Run [''cleanvid'', ''-i'', ''/in/a.mp4'', ''-o'', ''/in/a_clean.mp4'', ''-w'', ''/data/swears.txt'',
             ''-s'', ''/in/a.srt''] (Exited 0)
        \<in> set (new_events ex_state
              (snd (candidate ex_env ex_cfg [(''a'', ''/in/a.srt'')] (''a'', ''/in/a.mp4'') ex_state)))"
    unfolding new_events_def ex_candidate_trace by (simp add: ex_state_def)
  note h = stability_gate[of ex_env ex_state "''/in/a.mp4''" ex_cfg "[(''a'', ''/in/a.srt'')]" "''a''"]
  from h r have e: "\<exists>a. getsize (wld ex_state) ''/in/a.mp4'' = Some a
          \<and> getsize (elapse ex_env 1 (wld ex_state)) ''/in/a.mp4'' = Some a"
    by blast
  show ?thesis using ex_sizes(1,2) c r e by blast
qed

subsection \<open>Idempotence on recorded pairs\<close>

text \<open>
  Claim C3. When the store has, for the key of the video, a record whose two fingerprints
  equal the current ones (those measured after the stability wait), the candidate raises
  nothing, leaves the store as it is and adds nothing to the trace but the one second
  wait: no run of the tool and no store write. When moreover the file is stable, the
  state after the candidate is exactly the state after the wait.
\<close>

theorem unchanged_pair_is_skipped:
  assumes f: "current_fingerprints e vpath (map_of sm base) (elapse e 1 (wld s)) = (key, vstat, sstat)"
    and rec: "db s key = Some en" "video en = vstat" "subs en = sstat"
  shows "fst (candidate e cfg sm (base, vpath) s) = None
    \<and> db (snd (candidate e cfg sm (base, vpath) s)) = db s
    \<and> (\<forall>ev\<in>set (new_events s (snd (candidate e cfg sm (base, vpath) s))). ev = Sleep 1)
    \<and> (\<forall>cmd outcome.
          Run cmd outcome \<notin> set (new_events s (snd (candidate e cfg sm (base, vpath) s))))
    \<and> SaveDb \<notin> set (new_events s (snd (candidate e cfg sm (base, vpath) s)))
    \<and> (\<forall>a. getsize (wld s) vpath = Some a \<longrightarrow> getsize (elapse e 1 (wld s)) vpath = Some a \<longrightarrow>
          candidate e cfg sm (base, vpath) s = (None, after_wait e s))"
proof -
  obtain r s' where c: "candidate e cfg sm (base, vpath) s = (r, s')"
    by (cases "candidate e cfg sm (base, vpath) s")
  have nn: "\<not> needs_processing (db s) key vstat sstat"
    using rec by (simp add: needs_processing_def)
  note f' = f[folded after_wait_simps(1)]
  from candidate_cases[OF c f'] nn
  have r: "r = None" and st: "s' = s \<or> s' = after_wait e s" by blast+
  from st have d: "db s' = db s" using after_wait_simps(3) by metis
  from st have "new_events s s' = [] \<or> new_events s s' = [Sleep 1]"
    using new_events_simps(1,2) by metis
  then have ev: "\<forall>ev\<in>set (new_events s s'). ev = Sleep 1" by auto
  have nr: "\<forall>cmd outcome. Run cmd outcome \<notin> set (new_events s s')"
    and ns: "SaveDb \<notin> set (new_events s s')"
    using ev by auto
  have ex: "candidate e cfg sm (base, vpath) s = (None, after_wait e s)"
    if "getsize (wld s) vpath = Some a" "getsize (elapse e 1 (wld s)) vpath = Some a" for a
  proof -
    have "\<not> needs_processing (db (after_wait e s)) key vstat sstat"
      using nn by (simp add: after_wait_simps)
    from detect_skip[OF f' this, of cfg] show ?thesis
      using that candidate_unfold[of e cfg sm base vpath s] by (simp add: after_wait_simps)
  qed
  show ?thesis unfolding c using r d ev nr ns ex c by simp
qed

theorem unchanged_pair_is_skipped_witness:
  "current_fingerprints ex_env ''/in/a.mp4'' (map_of [(''a'', ''/in/a.srt'')] ''a'')
      (elapse ex_env 1 (wld ex_state_done))
     = (''/in/a.mp4'', Some \<lparr>fsize = 10, mtime = 1234\<rparr>, Some \<lparr>fsize = 3, mtime = 50\<rparr>)
   \<and> db ex_state_done ''/in/a.mp4''
     = Some \<lparr>video = Some \<lparr>fsize = 10, mtime = 1234\<rparr>,
              subs = Some \<lparr>fsize = 3, mtime = 50\<rparr>, processed_at = 1900\<rparr>
   \<and> getsize (wld ex_state_done) ''/in/a.mp4'' = Some 10
   \<and> getsize (elapse ex_env 1 (wld ex_state_done)) ''/in/a.mp4'' = Some 10
   \<and> candidate ex_env ex_cfg [(''a'', ''/in/a.srt'')] (''a'', ''/in/a.mp4'') ex_state_done
        = (None, after_wait ex_env ex_state_done)
   \<and> db (snd (candidate ex_env ex_cfg [(''a'', ''/in/a.srt'')] (''a'', ''/in/a.mp4'') ex_state_done))
        = db ex_state_done"
proof -
  note t = unchanged_pair_is_skipped[OF ex_done_fingerprints(1,2), of ex_cfg, simplified]
  from t ex_done_fingerprints(3,4) have
    "candidate ex_env ex_cfg [(''a'', ''/in/a.srt'')] (''a'', ''/in/a.mp4'') ex_state_done
        = (None, after_wait ex_env ex_state_done)"
    "db (snd (candidate ex_env ex_cfg [(''a'', ''/in/a.srt'')] (''a'', ''/in/a.mp4'') ex_state_done))
        = db ex_state_done"
    by blast+
  then show ?thesis using ex_done_fingerprints by blast
qed

subsection \<open>Failures are not recorded\<close>

lemma records_justified_refl: "records_justified e s s"
  by (simp add: records_justified_def)

lemma records_justified_trans:
  assumes "records_justified e s s1" "records_justified e s1 s2"
  shows "records_justified e s s2"
proof -
  from assms obtain evs1 evs2 where t: "trace s1 = trace s @ evs1" "trace s2 = trace s1 @ evs2"
    unfolding records_justified_def by blast
  have n1: "new_events s s1 = evs1" and n2: "new_events s1 s2 = evs2"
    and n: "new_events s s2 = evs1 @ evs2"
    using t by (simp_all add: new_events_def)
  have "\<exists>vpath cmd. k = abspath e vpath \<and> take 3 cmd = [''cleanvid'', ''-i'', vpath]
               \<and> Run cmd (Exited 0) \<in> set (new_events s s2)"
    if "db s2 k \<noteq> db s k" for k
  proof (cases "db s1 k \<noteq> db s k")
    case True
    with assms(1) obtain vpath cmd where "k = abspath e vpath"
      "take 3 cmd = [''cleanvid'', ''-i'', vpath]" "Run cmd (Exited 0) \<in> set evs1"
      unfolding records_justified_def n1 by blast
    then show ?thesis unfolding n by auto
  next
    case False
    with that have "db s2 k \<noteq> db s1 k" by simp
    with assms(2) obtain vpath cmd where "k = abspath e vpath"
      "take 3 cmd = [''cleanvid'', ''-i'', vpath]" "Run cmd (Exited 0) \<in> set evs2"
      unfolding records_justified_def n2 by blast
    then show ?thesis unfolding n by auto
  qed
  moreover have "trace s2 = trace s @ (evs1 @ evs2)" using t by simp
  ultimately show ?thesis unfolding records_justified_def by blast
qed

lemma fingerprints_key: "current_fingerprints e vpath srt w = (key, vstat, sstat) \<Longrightarrow> key = abspath e vpath"
  by (simp add: current_fingerprints_def)

lemma candidate_justified:
  assumes c: "candidate e cfg sm (base, vpath) s = (r, s')"
  shows "records_justified e s s'"
proof -
  obtain key vstat sstat where
    f: "current_fingerprints e vpath (map_of sm base) (wld (after_wait e s)) = (key, vstat, sstat)"
    by (cases "current_fingerprints e vpath (map_of sm base) (wld (after_wait e s))")
  note k = fingerprints_key[OF f]
  from candidate_cases[OF c f]
  consider "s' = s" | "s' = after_wait e s"
    | cmd outcome rest where "take 3 cmd = [''cleanvid'', ''-i'', vpath]"
        "trace s' = trace s @ Sleep 1 # Run cmd outcome # rest"
        "db s' = db s \<or> (\<exists>t. db s' = (db s)(key \<mapsto> \<lparr>video = vstat, subs = sstat, processed_at = t\<rparr>)) \<and> outcome = Exited 0"
    by blast
  then show ?thesis
  proof cases
    case 1
    then show ?thesis by (simp add: records_justified_refl)
  next
    case 2
    then show ?thesis by (simp add: records_justified_def after_wait_simps)
  next
    case 3
    have ne: "new_events s s' = Sleep 1 # Run cmd outcome # rest"
      using 3(2) by (rule new_events_simps(3))
    have "\<exists>vp c. k' = abspath e vp \<and> take 3 c = [''cleanvid'', ''-i'', vp]
               \<and> Run c (Exited 0) \<in> set (new_events s s')"
      if ch: "db s' k' \<noteq> db s k'" for k'
    proof -
      from ch 3(3) obtain t where
        d: "db s' = (db s)(key \<mapsto> \<lparr>video = vstat, subs = sstat, processed_at = t\<rparr>)"
        and o: "outcome = Exited 0"
        by auto
      from ch d have "k' = key" by (auto split: if_splits)
      then have "k' = abspath e vpath" using k by simp
      moreover have "Run cmd (Exited 0) \<in> set (new_events s s')" unfolding ne o by simp
      ultimately show ?thesis using 3(1) by blast
    qed
    then show ?thesis unfolding records_justified_def using 3(2) by blast
  qed
qed

lemma for_candidates_justified:
  "for_candidates e cfg sm items s = (r, s') \<Longrightarrow> records_justified e s s'"
proof (induction items arbitrary: s)
  case Nil
  then show ?case by (simp add: records_justified_refl)
next
  case (Cons item items)
  obtain base vpath where i: "item = (base, vpath)" by (cases item)
  obtain r1 s1 where c: "candidate e cfg sm (base, vpath) s = (r1, s1)"
    by (cases "candidate e cfg sm (base, vpath) s")
  note j1 = candidate_justified[OF c]
  show ?case
  proof (cases r1)
    case (Some x)
    then have "s' = s1" using Cons.prems i c by simp
    then show ?thesis using j1 by simp
  next
    case None
    then have "for_candidates e cfg sm items s1 = (r, s')" using Cons.prems i c by simp
    from Cons.IH[OF this] j1 show ?thesis by (rule records_justified_trans[rotated])
  qed
qed

lemma cycle_justified: "records_justified e s (snd (cycle e cfg s))"
proof (cases "scan_roots (wld s) (watch_dirs cfg) [] []")
  case None
  then show ?thesis by (simp add: cycle_def records_justified_refl)
next
  case (Some maps)
  obtain vm sm where m: "maps = (vm, sm)" by (cases maps)
  obtain r s' where f: "for_candidates e cfg sm vm s = (r, s')"
    by (cases "for_candidates e cfg sm vm s")
  from for_candidates_justified[OF f] show ?thesis
    using Some m f by (simp add: cycle_def)
qed

lemma time_sleep_justified: "time_sleep e d s = Inr s' \<Longrightarrow> records_justified e s s'"
  by (auto simp: time_sleep_def records_justified_def split: option.splits)

lemma poll_once_justified: "poll_once e cfg s = Inr s' \<Longrightarrow> records_justified e s s'"
  unfolding poll_once_def
  using cycle_justified time_sleep_justified records_justified_trans by blast

lemma turns_justified: "turns n e cfg s = Inr s' \<Longrightarrow> records_justified e s s'"
proof (induction n arbitrary: s)
  case 0
  then show ?case by (simp add: records_justified_refl)
next
  case (Suc n)
  then obtain s1 where p: "poll_once e cfg s = Inr s1" and t: "turns n e cfg s1 = Inr s'"
    by (auto split: sum.splits)
  from poll_once_justified[OF p] Suc.IH[OF t] show ?case by (rule records_justified_trans)
qed

text \<open>
  Claim C2. When the tool exits with a status other than zero for a candidate, the
  candidate raises nothing, the store is unchanged, the events of the candidate are the
  wait and the run only (no move of the inputs, no store write), and the pair still needs
  processing. When a candidate changes the store, it sets the record of the video's key to
  the fingerprints measured for it, and the tool exited with status zero on that video.
  Over any number of turns of the poll loop, every record that was created or changed
  belongs to a video for which a run of the tool exited with status zero.
\<close>

theorem failure_is_not_recorded:
  "(candidate e cfg sm (base, vpath) s = (r, s') \<longrightarrow>
    current_fingerprints e vpath (map_of sm base) (elapse e 1 (wld s)) = (key, vstat, sstat) \<longrightarrow>
      (\<forall>cmd status. Run cmd (Exited status) \<in> set (new_events s s') \<longrightarrow> status \<noteq> 0 \<longrightarrow>
          r = None \<and> db s' = db s \<and> new_events s s' = [Sleep 1, Run cmd (Exited status)]
          \<and> needs_processing (db s') key vstat sstat)
      \<and> (db s' \<noteq> db s \<longrightarrow>
            key = abspath e vpath
            \<and> (\<exists>t. db s' = (db s)(key \<mapsto> \<lparr>video = vstat, subs = sstat, processed_at = t\<rparr>))
            \<and> (\<exists>cmd. take 3 cmd = [''cleanvid'', ''-i'', vpath]
                  \<and> Run cmd (Exited 0) \<in> set (new_events s s'))))
   \<and> (turns n e cfg s0 = Inr sn \<longrightarrow> records_justified e s0 sn)"
proof (intro conjI impI)
  assume c: "candidate e cfg sm (base, vpath) s = (r, s')"
    and f0: "current_fingerprints e vpath (map_of sm base) (elapse e 1 (wld s)) = (key, vstat, sstat)"
  note f = f0[folded after_wait_simps(1)]
  note cc = candidate_cases[OF c f]
  show "\<forall>cmd status. Run cmd (Exited status) \<in> set (new_events s s') \<longrightarrow> status \<noteq> 0 \<longrightarrow>
          r = None \<and> db s' = db s \<and> new_events s s' = [Sleep 1, Run cmd (Exited status)]
          \<and> needs_processing (db s') key vstat sstat"
  proof (intro allI impI)
    fix cmd status
    assume run: "Run cmd (Exited status) \<in> set (new_events s s')" and nz: "status \<noteq> 0"
    have "\<not> (s' = s \<or> s' = after_wait e s)"
    proof
      assume "s' = s \<or> s' = after_wait e s"
      then have "new_events s s' = [] \<or> new_events s s' = [Sleep 1]"
        using new_events_simps(1,2) by metis
      with run show False by auto
    qed
    with cc obtain cmd' outcome rest where
      n: "needs_processing (db s) key vstat sstat"
      and t: "trace s' = trace s @ Sleep 1 # Run cmd' outcome # rest"
      and rl: "\<forall>ev\<in>set rest. is_relocation ev \<or> ev = SaveDb"
      and fail: "outcome \<noteq> Exited 0 \<longrightarrow> rest = [] \<and> db s' = db s"
      and rn: "(\<exists>status. outcome = Exited status \<and> status \<noteq> 0) \<longrightarrow> r = None"
      by blast
    have ne: "new_events s s' = Sleep 1 # Run cmd' outcome # rest"
      using t by (rule new_events_simps(3))
    have "Run cmd (Exited status) \<notin> set rest" using rl by auto
    with run have eq: "cmd' = cmd" "outcome = Exited status" unfolding ne by auto
    with nz fail rn have "rest = []" "db s' = db s" "r = None" by auto
    then show "r = None \<and> db s' = db s \<and> new_events s s' = [Sleep 1, Run cmd (Exited status)]
          \<and> needs_processing (db s') key vstat sstat"
      using ne eq n by simp
  qed
  show "key = abspath e vpath" by (rule fingerprints_key[OF f])
  assume ch: "db s' \<noteq> db s"
  have "\<not> (s' = s \<or> s' = after_wait e s)"
  proof
    assume "s' = s \<or> s' = after_wait e s"
    then have "db s' = db s" using after_wait_simps(3) by metis
    with ch show False by simp
  qed
  with cc ch obtain cmd outcome rest where
    t3: "take 3 cmd = [''cleanvid'', ''-i'', vpath]"
    and t: "trace s' = trace s @ Sleep 1 # Run cmd outcome # rest"
    and d: "\<exists>t. db s' = (db s)(key \<mapsto> \<lparr>video = vstat, subs = sstat, processed_at = t\<rparr>)"
    and o: "outcome = Exited 0"
    by blast
  show "\<exists>t. db s' = (db s)(key \<mapsto> \<lparr>video = vstat, subs = sstat, processed_at = t\<rparr>)" by (rule d)
  have ne: "new_events s s' = Sleep 1 # Run cmd outcome # rest"
    using t by (rule new_events_simps(3))
  show "\<exists>cmd. take 3 cmd = [''cleanvid'', ''-i'', vpath] \<and> Run cmd (Exited 0) \<in> set (new_events s s')"
    using t3 unfolding ne o by auto
next
  assume "turns n e cfg s0 = Inr sn"
  then show "records_justified e s0 sn" by (rule turns_justified)
qed

theorem failure_is_not_recorded_witness:
  "candidate ex_env_failing ex_cfg [(''a'', ''/in/a.srt'')] (''a'', ''/in/a.mp4'') ex_state
     = (None, \<lparr>wld = ex_world\<lparr>clock := 2001\<rparr>, db = Map.empty,
               trace = [Sleep 1,
                  Run [''cleanvid'', ''-i'', ''/in/a.mp4'', ''-o'', ''/in/a_clean.mp4'', ''-w'',
                       ''/data/swears.txt'', ''-s'', ''/in/a.srt''] (Exited 1)]\<rparr>)
   \<and> current_fingerprints ex_env_failing ''/in/a.mp4'' (map_of [(''a'', ''/in/a.srt'')] ''a'')
        (elapse ex_env_failing 1 (wld ex_state))
     = (''/in/a.mp4'', Some \<lparr>fsize = 10, mtime = 1234\<rparr>, Some \<lparr>fsize = 3, mtime = 50\<rparr>)
   \<and> needs_processing Map.empty ''/in/a.mp4''
        (Some \<lparr>fsize = 10, mtime = 1234\<rparr>) (Some \<lparr>fsize = 3, mtime = 50\<rparr>)
   \<and> turns 1 ex_env (ex_cfg\<lparr>watch_dirs := []\<rparr>) ex_state
     = Inr \<lparr>wld = ex_world\<lparr>clock := 2010\<rparr>, db = Map.empty, trace = [Sleep 10]\<rparr>
   \<and> (\<exists>evs. [Sleep 10] = trace ex_state @ evs)"
proof -
  define s' where "s' = \<lparr>wld = ex_world\<lparr>clock := 2001\<rparr>, db = Map.empty,
               trace = [Sleep 1,
                  Run [''cleanvid'', ''-i'', ''/in/a.mp4'', ''-o'', ''/in/a_clean.mp4'', ''-w'',
                       ''/data/swears.txt'', ''-s'', ''/in/a.srt''] (Exited 1)]\<rparr>"
  have c: "candidate ex_env_failing ex_cfg [(''a'', ''/in/a.srt'')] (''a'', ''/in/a.mp4'') ex_state = (None, s')"
    unfolding s'_def by (rule ex_candidate_failing)
  have f: "current_fingerprints ex_env_failing ''/in/a.mp4'' (map_of [(''a'', ''/in/a.srt'')] ''a'')
        (elapse ex_env_failing 1 (wld ex_state))
     = (''/in/a.mp4'', Some \<lparr>fsize = 10, mtime = 1234\<rparr>, Some \<lparr>fsize = 3, mtime = 50\<rparr>)"
    by (simp add: step_eval ex_state_def ex_world_def ex_env_def ex_env_failing_def)
  have r: "Run [''cleanvid'', ''-i'', ''/in/a.mp4'', ''-o'', ''/in/a_clean.mp4'', ''-w'',
                       ''/data/swears.txt'', ''-s'', ''/in/a.srt''] (Exited 1)
      \<in> set (new_events ex_state s')"
    by (simp add: new_events_def s'_def ex_state_def)
  note th = failure_is_not_recorded[where e = ex_env_failing and cfg = ex_cfg
      and sm = "[(''a'', ''/in/a.srt'')]" and base = "''a''" and vpath = "''/in/a.mp4''"
      and s = ex_state and r = None and s' = s' and key = "''/in/a.mp4''"
      and vstat = "Some \<lparr>fsize = 10, mtime = 1234\<rparr>"
      and sstat = "Some \<lparr>fsize = 3, mtime = 50\<rparr>"]
  note th2 = failure_is_not_recorded[where e = ex_env and cfg = "ex_cfg\<lparr>watch_dirs := []\<rparr>"
      and n = 1 and ?s0.0 = ex_state
      and sn = "\<lparr>wld = ex_world\<lparr>clock := 2010\<rparr>, db = Map.empty, trace = [Sleep 10]\<rparr>"]
  note a = th[THEN conjunct1, rule_format, OF c f, THEN conjunct1, rule_format, OF r]
  have n: "needs_processing Map.empty ''/in/a.mp4''
        (Some \<lparr>fsize = 10, mtime = 1234\<rparr>) (Some \<lparr>fsize = 3, mtime = 50\<rparr>)"
    using a by (simp add: s'_def ex_state_def)
  note b = th2[THEN conjunct2, rule_format, OF ex_turn_idle]
  have j: "\<exists>evs. [Sleep 10] = trace ex_state @ evs"
    using b by (simp add: records_justified_def)
  show ?thesis
    by (intro conjI) (rule c[unfolded s'_def] f n ex_turn_idle j)+
qed

subsection \<open>The poll loop\<close>

lemma sleep_error_None:
  "sleep_error e x w = None \<longleftrightarrow>
     (\<exists>d. x = Finite d \<and> 0 \<le> d \<and> d * 10 ^ 9 < 2 ^ 63 \<and> (d \<le> 1 \<or> d \<le> timer_limit e w))"
proof (cases x)
  case (Finite d)
  have "0 \<le> d \<Longrightarrow> \<not> d * 10 ^ 9 < - (2 ^ 63)"
  proof -
    assume "0 \<le> d"
    then have "0 \<le> d * 10 ^ 9" by simp
    moreover have "- (2 ^ 63) < (0::real)" by simp
    ultimately show ?thesis by linarith
  qed
  then show ?thesis using Finite by (auto simp: sleep_error_def)
qed (simp_all add: sleep_error_def)

lemma poll_once_ok:
  "sleep_error e (poll_interval cfg) (wld (snd (cycle e cfg s))) = None \<Longrightarrow>
   poll_once e cfg s = Inr ((snd (cycle e cfg s))
      \<lparr>wld := elapse e (seconds (poll_interval cfg)) (wld (snd (cycle e cfg s))),
       trace := trace (snd (cycle e cfg s)) @ [Sleep (seconds (poll_interval cfg))]\<rparr>)"
  by (simp add: poll_once_def time_sleep_def)

lemma poll_once_raises:
  "sleep_error e (poll_interval cfg) (wld (snd (cycle e cfg s))) = Some x \<Longrightarrow>
   poll_once e cfg s = Inl x"
  by (simp add: poll_once_def time_sleep_def)

lemma turns_ok:
  "\<forall>w. sleep_error e (poll_interval cfg) w = None \<Longrightarrow> \<exists>s'. turns n e cfg s = Inr s'"
  by (induction n arbitrary: s) (simp_all add: poll_once_ok)

lemma service_loop_returns:
  "service_loop e cfg s = Some y \<Longrightarrow> \<exists>w. sleep_error e (poll_interval cfg) w \<noteq> None"
proof (induction rule: service_loop.raw_induct[rotated 1, consumes 1])
  case (1 service_loop' e cfg s y)
  show ?case
  proof (cases "poll_once e cfg s")
    case (Inl x)
    then have "sleep_error e (poll_interval cfg) (wld (snd (cycle e cfg s))) \<noteq> None"
      by (auto simp: poll_once_def time_sleep_def split: option.splits)
    then show ?thesis by blast
  next
    case (Inr s')
    then show ?thesis using 1 by simp
  qed
qed

text \<open>
  Claim C6, amended. Whatever a cycle raises is caught, and the turn goes on to the
  interval sleep. Provided \<open>time.sleep\<close> accepts the configured poll interval (a number
  that is not negative, below \<open>2 ^ 63\<close> nanoseconds and not too long for the platform's
  timer), every turn of the loop ends in the interval sleep, after any number of turns the
  loop is still running, and the loop never returns. When the interval sleep of a turn
  raises, nothing catches it (it stands outside the \<open>try\<close>) and the loop is left.
\<close>

theorem poll_loop_never_stops:
  "((\<forall>w. sleep_error e (poll_interval cfg) w = None) \<longrightarrow>
      service_loop e cfg s = None
      \<and> (\<forall>n. \<exists>s'. turns n e cfg s = Inr s')
      \<and> poll_once e cfg s = Inr ((snd (cycle e cfg s))
           \<lparr>wld := elapse e (seconds (poll_interval cfg)) (wld (snd (cycle e cfg s))),
            trace := trace (snd (cycle e cfg s)) @ [Sleep (seconds (poll_interval cfg))]\<rparr>))
   \<and> (\<forall>x. sleep_error e (poll_interval cfg) (wld (snd (cycle e cfg s))) = Some x \<longrightarrow>
         service_loop e cfg s = Some (x, snd (cycle e cfg s)))
   \<and> (\<forall>w. sleep_error e (poll_interval cfg) w = None \<longleftrightarrow>
         (\<exists>d. poll_interval cfg = Finite d \<and> 0 \<le> d \<and> d * 10 ^ 9 < 2 ^ 63
               \<and> (d \<le> 1 \<or> d \<le> timer_limit e w)))"
proof (intro conjI impI allI)
  assume a: "\<forall>w. sleep_error e (poll_interval cfg) w = None"
  show "service_loop e cfg s = None"
  proof (cases "service_loop e cfg s")
    case (Some y)
    from service_loop_returns[OF this] a show ?thesis by simp
  qed simp
  show "\<exists>s'. turns n e cfg s = Inr s'" for n by (rule turns_ok[OF a])
  show "poll_once e cfg s = Inr ((snd (cycle e cfg s))
           \<lparr>wld := elapse e (seconds (poll_interval cfg)) (wld (snd (cycle e cfg s))),
            trace := trace (snd (cycle e cfg s)) @ [Sleep (seconds (poll_interval cfg))]\<rparr>)"
    using a by (intro poll_once_ok) simp
next
  fix x
  assume "sleep_error e (poll_interval cfg) (wld (snd (cycle e cfg s))) = Some x"
  then have "poll_once e cfg s = Inl x" by (rule poll_once_raises)
  then show "service_loop e cfg s = Some (x, snd (cycle e cfg s))"
    by (subst service_loop.simps) simp
next
  fix w
  show "sleep_error e (poll_interval cfg) w = None \<longleftrightarrow>
         (\<exists>d. poll_interval cfg = Finite d \<and> 0 \<le> d \<and> d * 10 ^ 9 < 2 ^ 63
               \<and> (d \<le> 1 \<or> d \<le> timer_limit e w))"
    by (rule sleep_error_None)
qed

theorem poll_loop_never_stops_witness:
  "sleep_error ex_env (poll_interval ex_cfg) ex_world = None
   \<and> service_loop ex_env ex_cfg ex_state = None
   \<and> (\<exists>s'. turns 3 ex_env ex_cfg ex_state = Inr s')
   \<and> sleep_error ex_env (Finite (- 1)) (wld (snd (cycle ex_env (ex_cfg\<lparr>poll_interval := Finite (- 1)\<rparr>) ex_state)))
        = Some ValueError
   \<and> service_loop ex_env (ex_cfg\<lparr>poll_interval := Finite (- 1)\<rparr>) ex_state
        = Some (ValueError, snd (cycle ex_env (ex_cfg\<lparr>poll_interval := Finite (- 1)\<rparr>) ex_state))"
proof -
  have h: "\<forall>w. sleep_error ex_env (poll_interval ex_cfg) w = None"
    by (simp add: sleep_error_def ex_cfg_def ex_env_def)
  note t = poll_loop_never_stops[of ex_env ex_cfg ex_state, THEN conjunct1, THEN mp, OF h]
  have g: "sleep_error ex_env (poll_interval (ex_cfg\<lparr>poll_interval := Finite (- 1)\<rparr>))
      (wld (snd (cycle ex_env (ex_cfg\<lparr>poll_interval := Finite (- 1)\<rparr>) ex_state))) = Some ValueError"
    by (simp add: sleep_error_def)
  note u = poll_loop_never_stops[of ex_env "ex_cfg\<lparr>poll_interval := Finite (- 1)\<rparr>" ex_state,
      THEN conjunct2, THEN conjunct1, rule_format, OF g]
  show ?thesis using h t u g by simp
qed

text \<open>
  The claim as stated fails: with the poll interval \<open>-1\<close> the first interval sleep raises
  \<open>ValueError\<close> and the loop is left; so it is with \<open>1e10\<close> and \<open>inf\<close> (\<open>OverflowError\<close>)
  and with \<open>nan\<close> (\<open>ValueError\<close>), all of which \<open>float\<close> at line 101 accepts.
\<close>

theorem poll_loop_stops_counterexample:
  "poll_once ex_env (ex_cfg\<lparr>poll_interval := Finite (- 1)\<rparr>) ex_state = Inl ValueError
   \<and> service_loop ex_env (ex_cfg\<lparr>poll_interval := Finite (- 1)\<rparr>) ex_state
      = Some (ValueError, snd (cycle ex_env (ex_cfg\<lparr>poll_interval := Finite (- 1)\<rparr>) ex_state))
   \<and> service_loop ex_env (ex_cfg\<lparr>poll_interval := Finite (- 1)\<rparr>) ex_state \<noteq> None
   \<and> service_loop ex_env (ex_cfg\<lparr>poll_interval := Finite 10000000000\<rparr>) ex_state
      = Some (OverflowError, snd (cycle ex_env (ex_cfg\<lparr>poll_interval := Finite 10000000000\<rparr>) ex_state))
   \<and> service_loop ex_env (ex_cfg\<lparr>poll_interval := PosInf\<rparr>) ex_state
      = Some (OverflowError, snd (cycle ex_env (ex_cfg\<lparr>poll_interval := PosInf\<rparr>) ex_state))
   \<and> service_loop ex_env (ex_cfg\<lparr>poll_interval := NaN\<rparr>) ex_state
      = Some (ValueError, snd (cycle ex_env (ex_cfg\<lparr>poll_interval := NaN\<rparr>) ex_state))"
proof -
  have p: "poll_once ex_env (ex_cfg\<lparr>poll_interval := Finite (- 1)\<rparr>) ex_state = Inl ValueError"
    "poll_once ex_env (ex_cfg\<lparr>poll_interval := Finite 10000000000\<rparr>) ex_state = Inl OverflowError"
    "poll_once ex_env (ex_cfg\<lparr>poll_interval := PosInf\<rparr>) ex_state = Inl OverflowError"
    "poll_once ex_env (ex_cfg\<lparr>poll_interval := NaN\<rparr>) ex_state = Inl ValueError"
    by (simp_all add: poll_once_def time_sleep_def sleep_error_def)
  have s1: "service_loop ex_env (ex_cfg\<lparr>poll_interval := Finite (- 1)\<rparr>) ex_state
      = Some (ValueError, snd (cycle ex_env (ex_cfg\<lparr>poll_interval := Finite (- 1)\<rparr>) ex_state))"
    by (subst service_loop.simps) (simp add: p)
  have s2: "service_loop ex_env (ex_cfg\<lparr>poll_interval := Finite 10000000000\<rparr>) ex_state
      = Some (OverflowError, snd (cycle ex_env (ex_cfg\<lparr>poll_interval := Finite 10000000000\<rparr>) ex_state))"
    by (subst service_loop.simps) (simp add: p)
  have s3: "service_loop ex_env (ex_cfg\<lparr>poll_interval := PosInf\<rparr>) ex_state
      = Some (OverflowError, snd (cycle ex_env (ex_cfg\<lparr>poll_interval := PosInf\<rparr>) ex_state))"
    by (subst service_loop.simps) (simp add: p)
  have s4: "service_loop ex_env (ex_cfg\<lparr>poll_interval := NaN\<rparr>) ex_state
      = Some (ValueError, snd (cycle ex_env (ex_cfg\<lparr>poll_interval := NaN\<rparr>) ex_state))"
    by (subst service_loop.simps) (simp add: p)
  show ?thesis using p(1) s1 s2 s3 s4 by simp
qed

end
